theory Spec2Isabelle
  imports Complex_Main "HOL-Library.Sublist" "HOL-Library.Multiset"
begin

section \<open>Numbers, points and line segments\<close>

text \<open>
  The sources are JavaScript. A JavaScript number is modelled as a \<^typ>\<open>real\<close>: the
  arithmetic of the model is exact, \<open>==\<close> on numbers is equality, and rounding, NaN and
  Infinity do not occur. A value that may be \<open>null\<close> or \<open>undefined\<close> is an \<open>option\<close>,
  and an exception is the left summand of a sum type.
\<close>

record point =
  x :: real
  y :: real

record line =
  start :: point
  endpt :: point

datatype js_error = SingularMatrix

section \<open>The coefficient solver (part\_000, lines 174--205)\<close>

text \<open>
  Modelled from the spec: \<open>math.lusolve\<close> of the mathjs library, which
  \<open>solveSimultaneousEquation\<close> calls, is not among the sources. The spec has it solve
  the 2x2 linear system and fail when the system is singular. \<open>formula\<close> is the
  coefficient matrix, given by its two rows, \<open>results\<close> the right-hand side; the result is
  the solution vector \<open>(result[0][0], result[1][0])\<close>, or the error that \<open>lusolve\<close>
  throws.
\<close>

definition solveSimultaneousEquation ::
    "(real \<times> real) \<times> (real \<times> real) \<Rightarrow> real \<times> real \<Rightarrow> js_error + real \<times> real" where
  "solveSimultaneousEquation formula results =
     (case formula of ((a11, a12), (a21, a22)) \<Rightarrow>
      case results of (b1, b2) \<Rightarrow>
        let det = a11 * a22 - a12 * a21 in
        if det = 0 then Inl SingularMatrix
        else Inr ((b1 * a22 - a12 * b2) / det, (a11 * b2 - a21 * b1) / det))"

text \<open>
  \<open>getCoefficienConst\<close> returns the two-element array \<open>[a, k]\<close> whose entries may be
  \<open>null\<close>. The call of \<open>solveSimultaneousEquation\<close> is not guarded by a \<open>try\<close>, so
  its error escapes.
\<close>

definition getCoefficienConst ::
    "point \<Rightarrow> point \<Rightarrow> js_error + real option \<times> real option" where
  "getCoefficienConst point1 point2 =
     (if x point1 = x point2 \<and> y point1 = y point2 then Inr (None, None)
      else if x point1 = x point2 then Inr (Some (x point1), None)
      else if y point1 = y point2 then Inr (None, Some (y point1))
      else
        (case solveSimultaneousEquation ((x point1, 1), (x point2, 1)) (y point1, y point2) of
           Inl e \<Rightarrow> Inl e
         | Inr result \<Rightarrow> Inr (Some (fst result), Some (snd result))))"

text \<open>
  The spec names the four shapes of the returned array. \<open>classify\<close> is
  \<open>getCoefficienConst\<close> read through that naming.
\<close>

datatype CoefficientModel =
    Degenerate
  | Vertical real
  | Horizontal real
  | Sloped real real

fun model_of :: "real option \<times> real option \<Rightarrow> CoefficientModel" where
  "model_of (None, None) = Degenerate"
| "model_of (Some a, None) = Vertical a"
| "model_of (None, Some k) = Horizontal k"
| "model_of (Some a, Some k) = Sloped a k"

definition classify :: "point \<Rightarrow> point \<Rightarrow> js_error + CoefficientModel" where
  "classify p1 p2 = map_sum id model_of (getCoefficienConst p1 p2)"

section \<open>The intersection engine (part\_000, lines 86--172)\<close>

text \<open>
  The variables \<open>intersectX\<close> and \<open>intersectY\<close> are declared with \<open>var\<close> inside the
  loop, so they belong to the function and keep their values from one iteration to the
  next; before the first assignment they are \<open>undefined\<close>. They are part of the loop state,
  with the array \<open>intersects\<close>.
\<close>

record loop_state =
  intersectX :: "real option"
  intersectY :: "real option"
  intersects :: "point list"

text \<open>
  Lines 110--151: the chain of \<open>null\<close> tests. A branch either executes \<open>continue\<close>,
  or assigns both variables, or (last branch) catches the error of the solver, logs it and
  assigns nothing. The equations are tried in the order of the source.
\<close>

datatype outcome = Continue | Assigned real real | Caught js_error

fun case_table :: "real option \<times> real option \<Rightarrow> real option \<times> real option \<Rightarrow> outcome" where
  "case_table (a_o, k_o) (None, None) = Continue"
| "case_table (None, None) (a_t, k_t) = Continue"
| "case_table (a_o, None) (a_t, None) = Continue"
| "case_table (None, k_o) (None, k_t) = Continue"
| "case_table (Some a_o, None) (None, Some k_t) = Assigned a_o k_t"
| "case_table (None, Some k_o) (Some a_t, None) = Assigned a_t k_o"
| "case_table (Some a_o, None) (Some a_t, Some k_t) = Assigned a_o (a_t * a_o + k_t)"
| "case_table (None, Some k_o) (Some a_t, Some k_t) = Assigned ((k_o - k_t) / a_t) k_o"
| "case_table (Some a_o, Some k_o) (Some a_t, None) = Assigned a_t (a_o * a_t + k_o)"
| "case_table (Some a_o, Some k_o) (None, Some k_t) = Assigned ((k_t - k_o) / a_o) k_t"
| "case_table (Some a_o, Some k_o) (Some a_t, Some k_t) =
     (case solveSimultaneousEquation ((1, - 1 * a_o), (1, - 1 * a_t)) (k_o, k_t) of
        Inl ex \<Rightarrow> Caught ex
      | Inr result \<Rightarrow> Assigned (snd result) (fst result))"

text \<open>
  Line 101: the rectangles of the two segments do not overlap.
\<close>

definition disjoint_boxes :: "point \<Rightarrow> point \<Rightarrow> line \<Rightarrow> bool" where
  "disjoint_boxes point1 point2 l =
     (let minxo = min (x point1) (x point2); minyo = min (y point1) (y point2);
          maxxo = max (x point1) (x point2); maxyo = max (y point1) (y point2);
          minxt = min (x (start l)) (x (endpt l)); minyt = min (y (start l)) (y (endpt l));
          maxxt = max (x (start l)) (x (endpt l)); maxyt = max (y (start l)) (y (endpt l))
      in maxxt < minxo \<or> maxxo < minxt \<or> maxyt < minyo \<or> maxyo < minyt)"

text \<open>
  Lines 152--159: the test that decides whether a point is pushed. A comparison with
  \<open>undefined\<close> is false, so the test fails while the variables are unassigned.
\<close>

definition accepts :: "point \<Rightarrow> point \<Rightarrow> line \<Rightarrow> real \<Rightarrow> real \<Rightarrow> bool" where
  "accepts point1 point2 l ix iy =
     (let minxo = min (x point1) (x point2); minyo = min (y point1) (y point2);
          maxxo = max (x point1) (x point2); maxyo = max (y point1) (y point2);
          minxt = min (x (start l)) (x (endpt l)); minyt = min (y (start l)) (y (endpt l));
          maxxt = max (x (start l)) (x (endpt l)); maxyt = max (y (start l)) (y (endpt l))
      in max minxo minxt \<le> ix \<and> ix \<le> min maxxo maxxt \<and>
         max minyo minyt \<le> iy \<and> iy \<le> min maxyo maxyt \<and>
         \<not> (ix = x point1 \<and> iy = y point1) \<and>
         \<not> (ix = x point2 \<and> iy = y point2))"

definition push_if_accepted :: "point \<Rightarrow> point \<Rightarrow> line \<Rightarrow> loop_state \<Rightarrow> loop_state" where
  "push_if_accepted point1 point2 l st =
     (case (intersectX st, intersectY st) of
        (Some ix, Some iy) \<Rightarrow>
          if accepts point1 point2 l ix iy
          then st\<lparr>intersects := intersects st @ [\<lparr>x = ix, y = iy\<rparr>]\<rparr>
          else st
      | _ \<Rightarrow> st)"

text \<open>One iteration of the loop of lines 96--170, for the candidate \<open>l = finieshLines[c]\<close>.\<close>

definition loop_body ::
    "point \<Rightarrow> point \<Rightarrow> real option \<times> real option \<Rightarrow> loop_state \<Rightarrow> line \<Rightarrow>
     js_error + loop_state" where
  "loop_body point1 point2 originCoefficienConst st l =
     (if disjoint_boxes point1 point2 l then Inr st
      else
        (case getCoefficienConst (start l) (endpt l) of
           Inl e \<Rightarrow> Inl e
         | Inr targetCoefficienConst \<Rightarrow>
             (case case_table originCoefficienConst targetCoefficienConst of
                Continue \<Rightarrow> Inr st
              | Assigned ix iy \<Rightarrow>
                  Inr (push_if_accepted point1 point2 l
                         (st\<lparr>intersectX := Some ix, intersectY := Some iy\<rparr>))
              | Caught ex \<Rightarrow> Inr (push_if_accepted point1 point2 l st))))"

fun loop :: "point \<Rightarrow> point \<Rightarrow> real option \<times> real option \<Rightarrow> loop_state \<Rightarrow> line list \<Rightarrow>
     js_error + loop_state" where
  "loop point1 point2 co st [] = Inr st"
| "loop point1 point2 co st (l # ls) =
     (case loop_body point1 point2 co st l of
        Inl e \<Rightarrow> Inl e
      | Inr st' \<Rightarrow> loop point1 point2 co st' ls)"

definition findCrossPoint :: "point \<Rightarrow> point \<Rightarrow> line list \<Rightarrow> js_error + point list" where
  "findCrossPoint point1 point2 finieshLines =
     (case getCoefficienConst point1 point2 of
        Inl e \<Rightarrow> Inl e
      | Inr originCoefficienConst \<Rightarrow>
          map_sum id intersects
            (loop point1 point2 originCoefficienConst
               \<lparr>intersectX = None, intersectY = None, intersects = []\<rparr> finieshLines))"

text \<open>
  The point that an iteration computes for the candidate \<open>l\<close>: the pair assigned by the
  case table, when it assigns one.
\<close>

definition computed :: "point \<Rightarrow> point \<Rightarrow> line \<Rightarrow> point option" where
  "computed point1 point2 l =
     (case (getCoefficienConst point1 point2, getCoefficienConst (start l) (endpt l)) of
        (Inr co, Inr ct) \<Rightarrow>
          (case case_table co ct of Assigned ix iy \<Rightarrow> Some \<lparr>x = ix, y = iy\<rparr> | _ \<Rightarrow> None)
      | _ \<Rightarrow> None)"

text \<open>
  The acceptance rule in the words of the spec (4.3, step 4): the bounding box of a
  segment, a point inside a box with inclusive bounds, and a point that lies in the boxes
  of both segments and is neither endpoint of the query.
\<close>

record BoundingBox =
  minX :: real
  minY :: real
  maxX :: real
  maxY :: real

definition bounding_box :: "point \<Rightarrow> point \<Rightarrow> BoundingBox" where
  "bounding_box p q =
     \<lparr>minX = min (x p) (x q), minY = min (y p) (y q),
      maxX = max (x p) (x q), maxY = max (y p) (y q)\<rparr>"

definition in_box :: "BoundingBox \<Rightarrow> point \<Rightarrow> bool" where
  "in_box b p = (minX b \<le> x p \<and> x p \<le> maxX b \<and> minY b \<le> y p \<and> y p \<le> maxY b)"

definition spec_accepts :: "point \<Rightarrow> point \<Rightarrow> line \<Rightarrow> point \<Rightarrow> bool" where
  "spec_accepts point1 point2 l p =
     (in_box (bounding_box point1 point2) p \<and> in_box (bounding_box (start l) (endpt l)) p \<and>
      p \<noteq> point1 \<and> p \<noteq> point2)"

text \<open>
  The candidates whose system the solver finds singular: the case table ends in the
  \<open>catch\<close>.
\<close>

definition caught :: "point \<Rightarrow> point \<Rightarrow> line \<Rightarrow> bool" where
  "caught point1 point2 l =
     (case (getCoefficienConst point1 point2, getCoefficienConst (start l) (endpt l)) of
        (Inr co, Inr ct) \<Rightarrow> (case case_table co ct of Caught ex \<Rightarrow> True | _ \<Rightarrow> False)
      | _ \<Rightarrow> False)"

text \<open>
  The result of the engine, candidate by candidate. \<open>left_by\<close> is the point that the
  candidates \<open>ls\<close> leave behind: the point computed for the last of them that has one
  and whose box meets the box of the query. \<open>under_test\<close> is the point that the test of
  lines 152--159 sees at a candidate: its own computed point, or, for a candidate of a
  singular system, what the earlier candidates left. \<open>emits\<close> is what the candidate adds
  to the result: the point under test when the acceptance rule of the spec holds of it
  for this candidate, and nothing when the boxes of candidate and query are disjoint.
  \<open>accepted_point\<close> is the computed point of a candidate when the rule accepts it.
\<close>

definition left_by :: "point \<Rightarrow> point \<Rightarrow> line list \<Rightarrow> point option" where
  "left_by point1 point2 ls =
     (case List.map_filter
             (\<lambda>l. if disjoint_boxes point1 point2 l then None else computed point1 point2 l)
             (rev ls) of
        [] \<Rightarrow> None
      | p # ps \<Rightarrow> Some p)"

definition under_test :: "point \<Rightarrow> point \<Rightarrow> point option \<Rightarrow> line \<Rightarrow> point option" where
  "under_test point1 point2 left l =
     (case computed point1 point2 l of
        Some p \<Rightarrow> Some p
      | None \<Rightarrow> if caught point1 point2 l then left else None)"

definition emits :: "point \<Rightarrow> point \<Rightarrow> point option \<Rightarrow> line \<Rightarrow> point list" where
  "emits point1 point2 left l =
     (if disjoint_boxes point1 point2 l then []
      else
        (case under_test point1 point2 left l of
           Some p \<Rightarrow> if spec_accepts point1 point2 l p then [p] else []
         | None \<Rightarrow> []))"

definition accepted_point :: "point \<Rightarrow> point \<Rightarrow> line \<Rightarrow> point list" where
  "accepted_point point1 point2 l =
     (case computed point1 point2 l of
        Some p \<Rightarrow> if spec_accepts point1 point2 l p then [p] else []
      | None \<Rightarrow> [])"

section \<open>The intersection phase (part\_001, lines 723--756)\<close>

text \<open>
  \<open>createIntersectPoints\<close> builds a generator that yields one work item for each index
  of \<open>lines\<close>, from \<open>INIT = 0\<close> up to \<open>MAX = lines.length\<close>. A work item is the closure
  over \<open>line = lines[index]\<close> and \<open>finieshLines = lines.slice(0, index)\<close>; it is modelled
  by the pair of the two captured values. Calling the work item calls
  \<open>createIntersectPoint(line.start, line.end, finieshLines)\<close>, which resolves with the
  result of \<open>findCrossPoint\<close>.
\<close>

type_synonym work_item = "line \<times> line list"

definition createGenerator :: "line list \<Rightarrow> work_item list" where
  "createGenerator lines = map (\<lambda>index. (lines ! index, take index lines)) [0..<length lines]"

definition createIntersectPoint :: "point \<Rightarrow> point \<Rightarrow> line list \<Rightarrow> js_error + point list" where
  "createIntersectPoint start_pt end_pt finieshLines = findCrossPoint start_pt end_pt finieshLines"

definition call_item :: "work_item \<Rightarrow> js_error + point list" where
  "call_item item =
     (case item of (l, finieshLines) \<Rightarrow> createIntersectPoint (start l) (endpt l) finieshLines)"

section \<open>The batch scheduler (part\_001, lines 704--721)\<close>

text \<open>
  \<open>asynccParallel\<close> creates \<open>concurrency\<close> promises. The executor of each is an
  \<open>async\<close> function, a worker, that loops: it takes the next work item from the one
  shared iterator, calls it, awaits the promise the call returns and pushes the value
  onto its own array \<open>vals\<close>; when the iterator is done it calls \<open>resolve(vals)\<close>.
  JavaScript runs the workers on one thread and switches between them at an \<open>await\<close>
  only. A worker is therefore in one of four places:

  \<^item> \<open>Pulling vals\<close>: about to call \<open>iterator.next()\<close>;
  \<^item> \<open>Awaiting vals r\<close>: suspended at the \<open>await\<close>; the work item has been called and
    its promise settles with \<open>r\<close>, a value or an error;
  \<^item> \<open>Resolved vals\<close>: it has called \<open>resolve(vals)\<close>;
  \<^item> \<open>Thrown e\<close>: the \<open>await\<close> has thrown \<open>e\<close>. Nothing in the worker catches it, so
    the \<open>async\<close> executor ends with a rejected promise of its own. The \<open>Promise\<close>
    constructor discards the value its executor returns, and the executor never receives
    \<open>reject\<close>: the promise of the worker is left pending.
\<close>

datatype ('e, 'r) worker =
    Pulling "'r list"
  | Awaiting "'r list" "'e + 'r"
  | Resolved "'r list"
  | Thrown 'e

text \<open>
  The state of a batch: the work items the iterator has not yet yielded, the workers, and
  the work items called so far, in the order of the calls.
\<close>

record ('t, 'e, 'r) batch =
  iterator :: "'t list"
  workers :: "('e, 'r) worker list"
  called :: "'t list"

definition start_batch :: "'t list \<Rightarrow> nat \<Rightarrow> ('t, 'e, 'r) batch" where
  "start_batch iterable concurrency =
     \<lparr>iterator = iterable, workers = replicate concurrency (Pulling []), called = []\<rparr>"

text \<open>
  One step of worker \<open>w\<close>, from one suspension point to the next; \<open>None\<close> when the worker
  has no step left. \<open>call\<close> gives the outcome of calling a work item.
\<close>

definition worker_step ::
    "('t \<Rightarrow> 'e + 'r) \<Rightarrow> nat \<Rightarrow> ('t, 'e, 'r) batch \<Rightarrow> ('t, 'e, 'r) batch option" where
  "worker_step call w s =
     (if length (workers s) \<le> w then None
      else
        (case workers s ! w of
           Pulling vals \<Rightarrow>
             (case iterator s of
                [] \<Rightarrow> Some (s\<lparr>workers := (workers s)[w := Resolved vals]\<rparr>)
              | item # rest \<Rightarrow>
                  Some (s\<lparr>iterator := rest,
                          workers := (workers s)[w := Awaiting vals (call item)],
                          called := called s @ [item]\<rparr>))
         | Awaiting vals (Inr val) \<Rightarrow> Some (s\<lparr>workers := (workers s)[w := Pulling (vals @ [val])]\<rparr>)
         | Awaiting vals (Inl e) \<Rightarrow> Some (s\<lparr>workers := (workers s)[w := Thrown e]\<rparr>)
         | Resolved vals \<Rightarrow> None
         | Thrown e \<Rightarrow> None))"

text \<open>
  A schedule names the worker that takes each step. \<open>run_schedule\<close> follows it; the
  result is \<open>None\<close> when the schedule asks a step of a worker that has none. The
  event loop resumes the workers in one particular order; the statements below hold for
  every schedule, that order among them.
\<close>

fun run_schedule ::
    "('t \<Rightarrow> 'e + 'r) \<Rightarrow> nat list \<Rightarrow> ('t, 'e, 'r) batch \<Rightarrow> ('t, 'e, 'r) batch option" where
  "run_schedule call [] s = Some s"
| "run_schedule call (w # sched) s =
     (case worker_step call w s of
        None \<Rightarrow> None
      | Some s' \<Rightarrow> run_schedule call sched s')"

definition quiescent :: "('t \<Rightarrow> 'e + 'r) \<Rightarrow> ('t, 'e, 'r) batch \<Rightarrow> bool" where
  "quiescent call s = (\<forall>w < length (workers s). worker_step call w s = None)"

text \<open>
  What the caller of \<open>asynccParallel\<close> observes is the promise of
  \<open>Promise.all(promises)\<close>: rejected as soon as one of the promises is, fulfilled with the
  list of all values once every promise is fulfilled, and pending otherwise.
\<close>

datatype ('e, 'a) promise = Pending | Fulfilled 'a | Rejected 'e

fun worker_promise :: "('e, 'r) worker \<Rightarrow> ('e, 'r list) promise" where
  "worker_promise (Resolved vals) = Fulfilled vals"
| "worker_promise (Pulling vals) = Pending"
| "worker_promise (Awaiting vals r) = Pending"
| "worker_promise (Thrown e) = Pending"

fun promise_all :: "('e, 'a) promise list \<Rightarrow> ('e, 'a list) promise" where
  "promise_all [] = Fulfilled []"
| "promise_all (Rejected e # ps) = Rejected e"
| "promise_all (Fulfilled v # ps) =
     (case promise_all ps of
        Fulfilled vs \<Rightarrow> Fulfilled (v # vs)
      | Pending \<Rightarrow> Pending
      | Rejected e \<Rightarrow> Rejected e)"
| "promise_all (Pending # ps) =
     (case promise_all ps of
        Rejected e \<Rightarrow> Rejected e
      | _ \<Rightarrow> Pending)"

definition asynccParallel :: "('t, 'e, 'r) batch \<Rightarrow> ('e, 'r list list) promise" where
  "asynccParallel s = promise_all (map worker_promise (workers s))"

text \<open>
  Notions that the statements about the scheduler use: the values a worker has received,
  a worker that has met no error (and, if resolved, saw the iterator done), and the
  number of steps a worker can still take without a new work item.
\<close>

fun held :: "('e, 'r) worker \<Rightarrow> 'r list" where
  "held (Pulling vals) = vals"
| "held (Awaiting vals (Inr val)) = vals @ [val]"
| "held (Awaiting vals (Inl e)) = vals"
| "held (Resolved vals) = vals"
| "held (Thrown e) = []"

fun sound_worker :: "'t list \<Rightarrow> ('e, 'r) worker \<Rightarrow> bool" where
  "sound_worker rest (Pulling vals) = True"
| "sound_worker rest (Awaiting vals r) = (\<not> isl r)"
| "sound_worker rest (Resolved vals) = (rest = [])"
| "sound_worker rest (Thrown e) = False"

fun weight :: "('e, 'r) worker \<Rightarrow> nat" where
  "weight (Pulling vals) = 1"
| "weight (Awaiting vals r) = 2"
| "weight (Resolved vals) = 0"
| "weight (Thrown e) = 0"

definition steps_left :: "('t, 'e, 'r) batch \<Rightarrow> nat" where
  "steps_left s = 2 * length (iterator s) + sum_list (map weight (workers s))"

fun failed_worker :: "('e, 'r) worker \<Rightarrow> bool" where
  "failed_worker (Awaiting vals (Inl e)) = True"
| "failed_worker (Thrown e) = True"
| "failed_worker w = False"

text \<open>
  The invariant of a batch whose work items all succeed, item \<open>t\<close> with the value
  \<open>f t\<close>: the items called and the items left make up the sequence, the workers hold
  the values of the items called, and every worker is sound.
\<close>

definition batch_inv :: "'t list \<Rightarrow> ('t \<Rightarrow> 'r) \<Rightarrow> ('t, 'e, 'r) batch \<Rightarrow> bool" where
  "batch_inv items f s =
     (called s @ iterator s = items \<and>
      mset (concat (map held (workers s))) = mset (map f (called s)) \<and>
      (\<forall>a \<in> set (workers s). sound_worker (iterator s) a))"

text \<open>
  Once a work item that fails has been called, some worker is awaiting its error or has
  thrown it.
\<close>

definition failure_kept :: "('t \<Rightarrow> 'e + 'r) \<Rightarrow> ('t, 'e, 'r) batch \<Rightarrow> bool" where
  "failure_kept call s =
     ((\<exists>t \<in> set (called s). isl (call t)) \<longrightarrow> (\<exists>a \<in> set (workers s). failed_worker a))"

section \<open>The bulge arc tessellator (part\_000, lines 1--73)\<close>

text \<open>
  Modelled from the spec: the methods \<open>sub\<close>, \<open>normalize\<close> and \<open>distanceTo\<close> of
  \<open>THREE.Vector3\<close> (the three.js library), which \<open>angle2\<close> and the constructor call,
  are not among the sources. The spec has \<open>dist\<close> as the distance of two points and
  \<open>angle2\<close> as the signed angle of the chord from \<open>p1\<close> to \<open>p2\<close>. \<open>angle2\<close> builds
  the chord as a vector with z = 0, normalizes it (the chord divided by its length, and
  by 1 when that length is 0) and reads the angle off the cosine, negated when the
  normalized chord points downwards.
\<close>

definition distanceTo :: "point \<Rightarrow> point \<Rightarrow> real" where
  "distanceTo p q = sqrt ((x p - x q) * (x p - x q) + (y p - y q) * (y p - y q) + 0 * 0)"

definition angle2 :: "point \<Rightarrow> point \<Rightarrow> real" where
  "angle2 p1 p2 =
     (let vx = x p2 - x p1; vy = y p2 - y p1;
          len = sqrt (vx * vx + vy * vy + 0 * 0);
          scalar = (if len = 0 then 1 else len);
          v2x = vx / scalar; v2y = vy / scalar
      in if v2y < 0 then - arccos v2x else arccos v2x)"

definition polar :: "point \<Rightarrow> real \<Rightarrow> real \<Rightarrow> point" where
  "polar pt distance angle =
     \<lparr>x = x pt + distance * cos angle, y = y pt + distance * sin angle\<rparr>"

text \<open>
  The constructor \<open>THREEx.BulgeGeometry\<close>. Both points are given (its caller passes two
  vertices of a polyline). \<open>bulge\<close> and \<open>segments\<close> may be omitted; an omitted argument
  and the number 0 are both falsy, and \<open>||\<close> replaces either by the default. The object
  built is the record of the fields the constructor sets; a vertex is pushed as a
  \<open>Vector3\<close> with z = 0 and is modelled by its point.
\<close>

record bulge_geometry =
  this_startPoint :: point
  this_endPoint :: point
  this_bulge :: real
  this_segments :: nat
  this_vertices :: "point list"

definition BulgeGeometry :: "point \<Rightarrow> point \<Rightarrow> real option \<Rightarrow> nat option \<Rightarrow> bulge_geometry" where
  "BulgeGeometry startPoint endPoint bulge_arg segments_arg =
     (let p0 = startPoint; p1 = endPoint;
          bulge = (case bulge_arg of None \<Rightarrow> 1 | Some b \<Rightarrow> if b = 0 then 1 else b);
          angle = 4 * arctan bulge;
          radius = distanceTo p0 p1 / 2 / sin (angle / 2);
          center = polar startPoint radius (angle2 p0 p1 + (pi / 2 - angle / 2));
          by_default = max (nat \<bar>\<lceil>angle / (pi / 18)\<rceil>\<bar>) 6;
          segments = (case segments_arg of None \<Rightarrow> by_default
                      | Some n \<Rightarrow> if n = 0 then by_default else n);
          startAngle = angle2 center p0;
          thetaAngle = angle / real segments
      in \<lparr>this_startPoint = p0, this_endPoint = p1, this_bulge = bulge,
          this_segments = segments,
          this_vertices =
            p0 # map (\<lambda>i. polar center \<bar>radius\<bar> (startAngle + thetaAngle * real i))
                   [1..<segments]\<rparr>)"

text \<open>
  The tessellator in the words of the spec (4.1, steps 1 to 6), for comparison with the
  constructor: the bulge after its default, the included angle, the radius, the centre,
  the default segment count, and the arc point of index \<open>i\<close> for the segment count \<open>n\<close>.
\<close>

definition spec_bulge :: "real option \<Rightarrow> real" where
  "spec_bulge bulge_arg = (if bulge_arg = None \<or> bulge_arg = Some 0 then 1 else the bulge_arg)"

definition includedAngle :: "real \<Rightarrow> real" where
  "includedAngle b = 4 * arctan b"

definition spec_radius :: "point \<Rightarrow> point \<Rightarrow> real \<Rightarrow> real" where
  "spec_radius s e b = distanceTo s e / (2 * sin (includedAngle b / 2))"

definition spec_center :: "point \<Rightarrow> point \<Rightarrow> real \<Rightarrow> point" where
  "spec_center s e b = polar s (spec_radius s e b) (angle2 s e + (pi / 2 - includedAngle b / 2))"

definition spec_segmentCount :: "real \<Rightarrow> nat" where
  "spec_segmentCount b = max (nat \<lceil>\<bar>includedAngle b\<bar> / (pi / 18)\<rceil>) 6"

definition spec_arc_point :: "point \<Rightarrow> point \<Rightarrow> real \<Rightarrow> nat \<Rightarrow> nat \<Rightarrow> point" where
  "spec_arc_point s e b n i =
     polar (spec_center s e b) \<bar>spec_radius s e b\<bar>
       (angle2 (spec_center s e b) s + includedAngle b / real n * real i)"

text \<open>The segment count the constructor takes by default, for the bulge \<open>b\<close>.\<close>

definition default_segments :: "real \<Rightarrow> nat" where
  "default_segments b = max (nat \<bar>\<lceil>includedAngle b / (pi / 18)\<rceil>\<bar>) 6"

text \<open>Two points that agree within the tolerance \<open>eps\<close> in each coordinate.\<close>

definition within_tolerance :: "real \<Rightarrow> point \<Rightarrow> point \<Rightarrow> bool" where
  "within_tolerance eps p q = (\<bar>x p - x q\<bar> \<le> eps \<and> \<bar>y p - y q\<bar> \<le> eps)"

section \<open>Properties of the coefficient solver and of the intersection loop\<close>

lemma solve_regular:
  "a11 * a22 - a12 * a21 \<noteq> 0 \<Longrightarrow>
   solveSimultaneousEquation ((a11, a12), (a21, a22)) (b1, b2) =
     Inr ((b1 * a22 - a12 * b2) / (a11 * a22 - a12 * a21),
          (a11 * b2 - a21 * b1) / (a11 * a22 - a12 * a21))"
  by (simp add: solveSimultaneousEquation_def Let_def)

lemma solve_singular:
  "a11 * a22 - a12 * a21 = 0 \<Longrightarrow>
   solveSimultaneousEquation ((a11, a12), (a21, a22)) (b1, b2) = Inl SingularMatrix"
  by (simp add: solveSimultaneousEquation_def Let_def)

lemma solve_sound:
  assumes "solveSimultaneousEquation ((a11, a12), (a21, a22)) (b1, b2) = Inr (r0, r1)"
  shows "a11 * r0 + a12 * r1 = b1 \<and> a21 * r0 + a22 * r1 = b2"
proof -
  let ?d = "a11 * a22 - a12 * a21"
  from assms have d: "?d \<noteq> 0"
    by (auto simp: solveSimultaneousEquation_def Let_def split: if_splits)
  from assms d have r: "r0 = (b1 * a22 - a12 * b2) / ?d" "r1 = (a11 * b2 - a21 * b1) / ?d"
    by (simp_all add: solve_regular)
  have "a11 * r0 + a12 * r1 = (b1 * ?d) / ?d"
    unfolding r by (simp add: add_divide_distrib [symmetric] algebra_simps)
  moreover have "a21 * r0 + a22 * r1 = (b2 * ?d) / ?d"
    unfolding r by (simp add: add_divide_distrib [symmetric] algebra_simps)
  ultimately show ?thesis using d by simp
qed

lemma getCoefficienConst_sloped:
  assumes "x p \<noteq> x q" "y p \<noteq> y q"
  shows "getCoefficienConst p q =
           Inr (Some ((y p - y q) / (x p - x q)), Some ((x p * y q - x q * y p) / (x p - x q)))"
  using assms by (simp add: getCoefficienConst_def solve_regular)

lemma getCoefficienConst_total: "\<exists>r. getCoefficienConst p q = Inr r"
proof (cases "x p = x q \<or> y p = y q")
  case True
  then show ?thesis by (auto simp: getCoefficienConst_def)
next
  case False
  then show ?thesis by (simp add: getCoefficienConst_sloped)
qed

lemma loop_body_total: "\<exists>st'. loop_body point1 point2 co st l = Inr st'"
proof -
  obtain ct where "getCoefficienConst (start l) (endpt l) = Inr ct"
    using getCoefficienConst_total by blast
  then show ?thesis
    by (cases "case_table co ct") (simp_all add: loop_body_def)
qed

lemma loop_total: "\<exists>st'. loop point1 point2 co st ls = Inr st'"
proof (induction ls arbitrary: st)
  case Nil
  show ?case by simp
next
  case (Cons l ls)
  obtain st1 where "loop_body point1 point2 co st l = Inr st1"
    using loop_body_total by blast
  with Cons show ?case by simp
qed

lemma loop_append:
  "loop point1 point2 co st (ls @ ls') =
     (case loop point1 point2 co st ls of
        Inl e \<Rightarrow> Inl e
      | Inr st' \<Rightarrow> loop point1 point2 co st' ls')"
  by (induction ls arbitrary: st) (simp_all split: sum.splits)

lemma accepts_iff_spec:
  "accepts point1 point2 l ix iy = spec_accepts point1 point2 l \<lparr>x = ix, y = iy\<rparr>"
proof -
  have e1: "(\<lparr>x = ix, y = iy\<rparr> = point1) = (ix = x point1 \<and> iy = y point1)"
    by (cases point1) auto
  have e2: "(\<lparr>x = ix, y = iy\<rparr> = point2) = (ix = x point2 \<and> iy = y point2)"
    by (cases point2) auto
  show ?thesis
    unfolding accepts_def spec_accepts_def in_box_def bounding_box_def Let_def e1 e2
    by (auto simp: max.bounded_iff min.bounded_iff)
qed

lemma disjoint_boxes_rejects:
  "disjoint_boxes point1 point2 l \<Longrightarrow> \<not> accepts point1 point2 l ix iy"
proof
  assume d: "disjoint_boxes point1 point2 l" and a: "accepts point1 point2 l ix iy"
  from a have
    "min (x point1) (x point2) \<le> ix" "min (x (start l)) (x (endpt l)) \<le> ix"
    "ix \<le> max (x point1) (x point2)" "ix \<le> max (x (start l)) (x (endpt l))"
    "min (y point1) (y point2) \<le> iy" "min (y (start l)) (y (endpt l)) \<le> iy"
    "iy \<le> max (y point1) (y point2)" "iy \<le> max (y (start l)) (y (endpt l))"
    unfolding accepts_def Let_def by (simp_all add: max.bounded_iff min.bounded_iff)
  with d show False
    unfolding disjoint_boxes_def Let_def by linarith
qed

lemma loop_body_computed:
  assumes co: "getCoefficienConst point1 point2 = Inr co"
    and p: "computed point1 point2 l = Some p"
  shows "\<exists>st'. loop_body point1 point2 co st l = Inr st' \<and>
           intersects st' = (if spec_accepts point1 point2 l p then intersects st @ [p]
                             else intersects st)"
proof -
  obtain ct where ct: "getCoefficienConst (start l) (endpt l) = Inr ct"
    using getCoefficienConst_total by blast
  from p co ct have tab: "case_table co ct = Assigned (x p) (y p)"
    by (auto simp: computed_def split: outcome.splits)
  have pp: "\<lparr>x = x p, y = y p\<rparr> = p" by simp
  show ?thesis
  proof (cases "disjoint_boxes point1 point2 l")
    case True
    from disjoint_boxes_rejects [OF True, of "x p" "y p"]
    have "\<not> spec_accepts point1 point2 l p"
      by (simp add: accepts_iff_spec pp)
    with True show ?thesis by (simp add: loop_body_def)
  next
    case False
    with ct tab show ?thesis
      using accepts_iff_spec [of point1 point2 l "x p" "y p"]
      by (simp add: loop_body_def push_if_accepted_def pp)
  qed
qed

lemma findCrossPoint_ex1:
  "findCrossPoint \<lparr>x = 0, y = 0\<rparr> \<lparr>x = 2, y = 2\<rparr>
     [\<lparr>start = \<lparr>x = 0, y = 2\<rparr>, endpt = \<lparr>x = 2, y = 0\<rparr>\<rparr>] = Inr [\<lparr>x = 1, y = 1\<rparr>]"
  by (simp add: findCrossPoint_def getCoefficienConst_def solveSimultaneousEquation_def
      loop_body_def disjoint_boxes_def push_if_accepted_def accepts_def)

lemma findCrossPoint_ex2:
  "findCrossPoint \<lparr>x = 0, y = 0\<rparr> \<lparr>x = 1, y = 1\<rparr>
     [\<lparr>start = \<lparr>x = 1, y = 1\<rparr>, endpt = \<lparr>x = 2, y = 0\<rparr>\<rparr>] = Inr []"
  by (simp add: findCrossPoint_def getCoefficienConst_def solveSimultaneousEquation_def
      loop_body_def disjoint_boxes_def push_if_accepted_def accepts_def)

lemma findCrossPoint_snoc:
  assumes "computed point1 point2 c = Some p"
  shows "\<exists>ps. findCrossPoint point1 point2 ls = Inr ps \<and>
           findCrossPoint point1 point2 (ls @ [c]) =
             Inr (if spec_accepts point1 point2 c p then ps @ [p] else ps)"
proof -
  obtain co where co: "getCoefficienConst point1 point2 = Inr co"
    using getCoefficienConst_total by blast
  let ?init = "\<lparr>intersectX = None, intersectY = None, intersects = []\<rparr>"
  obtain st where st: "loop point1 point2 co ?init ls = Inr st"
    using loop_total by blast
  from loop_body_computed [OF co assms, of st] obtain st' where
    st': "loop_body point1 point2 co st c = Inr st'" and
    i: "intersects st' = (if spec_accepts point1 point2 c p then intersects st @ [p]
                          else intersects st)" by blast
  have "findCrossPoint point1 point2 ls = Inr (intersects st)"
    using co st by (simp add: findCrossPoint_def)
  moreover have "findCrossPoint point1 point2 (ls @ [c]) = Inr (intersects st')"
    using co st st' by (simp add: findCrossPoint_def loop_append)
  ultimately show ?thesis using i by simp
qed

lemma point_eq_iff: "(p = (q::point)) = (x p = x q \<and> y p = y q)"
  by (cases p, cases q) simp

lemma classify_sloped:
  assumes "x p1 \<noteq> x p2" "y p1 \<noteq> y p2"
  shows "\<exists>a k. classify p1 p2 = Inr (Sloped a k) \<and>
           x p1 * a + 1 * k = y p1 \<and> x p2 * a + 1 * k = y p2"
proof -
  from assms have d: "x p1 * 1 - 1 * x p2 \<noteq> 0" by simp
  obtain a k where s:
    "solveSimultaneousEquation ((x p1, 1), (x p2, 1)) (y p1, y p2) = Inr (a, k)"
    using solve_regular [OF d] by blast
  from solve_sound [OF s] s assms show ?thesis
    by (simp add: classify_def getCoefficienConst_def)
qed

lemma case_table_rows:
  "case_table (a_o, k_o) (None, None) = Continue"
  "case_table (None, None) (a_t, k_t) = Continue"
  "case_table (Some xo, None) (Some xt, None) = Continue"
  "case_table (None, Some yo) (None, Some yt) = Continue"
  "case_table (Some xo, None) (None, Some yt) = Assigned xo yt"
  "case_table (None, Some yo) (Some xt, None) = Assigned xt yo"
  "case_table (Some xo, None) (Some a, Some k) = Assigned xo (a * xo + k)"
  "case_table (Some a, Some k) (Some xt, None) = Assigned xt (a * xt + k)"
  "case_table (None, Some yo) (Some a, Some k) = Assigned ((yo - k) / a) yo"
  "case_table (Some a, Some k) (None, Some yt) = Assigned ((yt - k) / a) yt"
  by (cases a_o; cases k_o; cases a_t; cases k_t; simp)+

lemma case_table_sloped:
  assumes "a1 \<noteq> a2"
  shows "\<exists>px py. case_table (Some a1, Some k1) (Some a2, Some k2) = Assigned px py \<and>
           1 * py + (- 1 * a1) * px = k1 \<and> 1 * py + (- 1 * a2) * px = k2"
proof -
  from assms have d: "1 * (- 1 * a2) - (- 1 * a1) * 1 \<noteq> 0" by simp
  obtain r0 r1 where s:
    "solveSimultaneousEquation ((1, - 1 * a1), (1, - 1 * a2)) (k1, k2) = Inr (r0, r1)"
    using solve_regular [OF d] by blast
  from solve_sound [OF s] s show ?thesis by simp
qed

lemma case_table_parallel:
  "case_table (Some a, Some k1) (Some a, Some k2) = Caught SingularMatrix"
  by (simp add: solveSimultaneousEquation_def)

lemma left_by_Nil: "left_by point1 point2 [] = None"
  by (simp add: left_by_def map_filter_simps)

lemma left_by_snoc:
  "left_by point1 point2 (ls @ [l]) =
     (if disjoint_boxes point1 point2 l then left_by point1 point2 ls
      else (case computed point1 point2 l of
              Some p \<Rightarrow> Some p
            | None \<Rightarrow> left_by point1 point2 ls))"
  by (simp add: left_by_def map_filter_simps split: option.splits)

lemma emits_length: "length (emits point1 point2 left l) \<le> 1"
  by (simp add: emits_def split: option.splits)

lemma loop_body_step:
  fixes l :: line and left :: "point option"
  assumes co: "getCoefficienConst point1 point2 = Inr co"
    and vx: "intersectX st = map_option x left"
    and vy: "intersectY st = map_option y left"
  defines "left' \<equiv> (if disjoint_boxes point1 point2 l then left
      else (case computed point1 point2 l of Some p \<Rightarrow> Some p | None \<Rightarrow> left))"
  shows "\<exists>st'. loop_body point1 point2 co st l = Inr st' \<and>
           intersects st' = intersects st @ emits point1 point2 left l \<and>
           intersectX st' = map_option x left' \<and> intersectY st' = map_option y left'"
proof (cases "disjoint_boxes point1 point2 l")
  case True
  with vx vy show ?thesis
    by (simp add: loop_body_def emits_def left'_def)
next
  case False
  obtain ct where ct: "getCoefficienConst (start l) (endpt l) = Inr ct"
    using getCoefficienConst_total by blast
  show ?thesis
  proof (cases "case_table co ct")
    case Continue
    with co ct have "computed point1 point2 l = None" "\<not> caught point1 point2 l"
      by (simp_all add: computed_def caught_def)
    with False ct Continue vx vy show ?thesis
      by (simp add: loop_body_def emits_def under_test_def left'_def)
  next
    case (Assigned ix iy)
    with co ct have c: "computed point1 point2 l = Some \<lparr>x = ix, y = iy\<rparr>"
      by (simp add: computed_def)
    with False ct Assigned show ?thesis
      by (simp add: loop_body_def emits_def under_test_def left'_def push_if_accepted_def
          accepts_iff_spec)
  next
    case (Caught ex)
    with co ct have c: "computed point1 point2 l = None" "caught point1 point2 l"
      by (simp_all add: computed_def caught_def)
    show ?thesis
    proof (cases left)
      case None
      with False ct Caught c vx vy show ?thesis
        by (simp add: loop_body_def emits_def under_test_def left'_def push_if_accepted_def)
    next
      case (Some p)
      have pp: "\<lparr>x = x p, y = y p\<rparr> = p" by simp
      from Some False ct Caught c vx vy show ?thesis
        using accepts_iff_spec [of point1 point2 l "x p" "y p"]
        by (simp add: loop_body_def emits_def under_test_def left'_def push_if_accepted_def pp)
    qed
  qed
qed

lemma loop_emits:
  assumes co: "getCoefficienConst point1 point2 = Inr co"
  shows "\<exists>st. loop point1 point2 co
             \<lparr>intersectX = None, intersectY = None, intersects = []\<rparr> ls = Inr st \<and>
           intersects st =
             concat (map (\<lambda>i. emits point1 point2 (left_by point1 point2 (take i ls)) (ls ! i))
                       [0..<length ls]) \<and>
           intersectX st = map_option x (left_by point1 point2 ls) \<and>
           intersectY st = map_option y (left_by point1 point2 ls)"
proof (induction ls rule: rev_induct)
  case Nil
  show ?case by (simp add: left_by_Nil)
next
  case (snoc l ls)
  let ?init = "\<lparr>intersectX = None, intersectY = None, intersects = []\<rparr>"
  from snoc obtain st where st: "loop point1 point2 co ?init ls = Inr st"
    and i: "intersects st =
      concat (map (\<lambda>i. emits point1 point2 (left_by point1 point2 (take i ls)) (ls ! i))
                [0..<length ls])"
    and vx: "intersectX st = map_option x (left_by point1 point2 ls)"
    and vy: "intersectY st = map_option y (left_by point1 point2 ls)"
    by blast
  from loop_body_step [OF co vx vy, of l] obtain st' where
    b: "loop_body point1 point2 co st l = Inr st'"
    and i': "intersects st' = intersects st @ emits point1 point2 (left_by point1 point2 ls) l"
    and vx': "intersectX st' = map_option x (left_by point1 point2 (ls @ [l]))"
    and vy': "intersectY st' = map_option y (left_by point1 point2 (ls @ [l]))"
    unfolding left_by_snoc by blast
  define F where "F = (\<lambda>ks i. emits point1 point2 (left_by point1 point2 (take i ks)) (ks ! i))"
  have m: "map (F (ls @ [l])) [0..<length ls] = map (F ls) [0..<length ls]"
    by (rule map_cong) (simp_all add: F_def nth_append)
  have e: "F (ls @ [l]) (length ls) = emits point1 point2 (left_by point1 point2 ls) l"
    by (simp add: F_def)
  have i2: "intersects st = concat (map (F ls) [0..<length ls])"
    using i by (simp add: F_def)
  have "concat (map (F (ls @ [l])) [0..<length (ls @ [l])]) =
        concat (map (F (ls @ [l])) [0..<length ls]) @ F (ls @ [l]) (length ls)"
    by simp
  also have "\<dots> = intersects st'"
    by (simp only: m e i' i2)
  finally have r: "intersects st' = concat (map (F (ls @ [l])) [0..<length (ls @ [l])])"
    by simp
  from st b have "loop point1 point2 co ?init (ls @ [l]) = Inr st'"
    by (simp add: loop_append)
  with r [unfolded F_def] vx' vy' show ?case by blast
qed

lemma emits_not_caught:
  "\<not> caught point1 point2 l \<Longrightarrow> emits point1 point2 left l = accepted_point point1 point2 l"
proof (cases "disjoint_boxes point1 point2 l")
  case True
  have "\<not> spec_accepts point1 point2 l p" for p
  proof -
    have pp: "\<lparr>x = x p, y = y p\<rparr> = p" by simp
    from disjoint_boxes_rejects [OF True, of "x p" "y p"] show ?thesis
      by (simp add: accepts_iff_spec pp)
  qed
  with True show ?thesis
    by (simp add: emits_def accepted_point_def split: option.splits)
next
  case False
  assume "\<not> caught point1 point2 l"
  with False show ?thesis
    by (simp add: emits_def accepted_point_def under_test_def split: option.splits)
qed

section \<open>Properties of the batch scheduler\<close>

lemma worker_step_length:
  "worker_step call w s = Some s' \<Longrightarrow> length (workers s') = length (workers s)"
  by (auto simp: worker_step_def split: if_splits worker.splits list.splits sum.splits)

lemma run_schedule_length:
  "run_schedule call sched s = Some s' \<Longrightarrow> length (workers s') = length (workers s)"
  by (induction sched arbitrary: s) (auto split: option.splits dest: worker_step_length)

lemma weight_update:
  assumes "w < length ws"
  shows "sum_list (map weight (ws[w := a])) + weight (ws ! w) = sum_list (map weight ws) + weight a"
proof -
  from assms have "ws = take w ws @ ws ! w # drop (Suc w) ws"
    by (rule id_take_nth_drop)
  then have "sum_list (map weight ws) =
      sum_list (map weight (take w ws)) + weight (ws ! w) + sum_list (map weight (drop (Suc w) ws))"
    by (metis map_append list.simps(9) sum_list.append sum_list.Cons add.assoc)
  moreover from assms have "ws[w := a] = take w ws @ a # drop (Suc w) ws"
    by (rule upd_conv_take_nth_drop)
  then have "sum_list (map weight (ws[w := a])) =
      sum_list (map weight (take w ws)) + weight a + sum_list (map weight (drop (Suc w) ws))"
    by simp
  ultimately show ?thesis by simp
qed

lemma held_update:
  assumes "w < length ws"
  shows "mset (concat (map held (ws[w := a]))) + mset (held (ws ! w)) =
         mset (concat (map held ws)) + mset (held a)"
proof -
  from assms have "ws = take w ws @ ws ! w # drop (Suc w) ws"
    by (rule id_take_nth_drop)
  then have "mset (concat (map held ws)) =
      mset (concat (map held (take w ws))) + mset (held (ws ! w)) +
      mset (concat (map held (drop (Suc w) ws)))"
    by (metis map_append list.simps(9) concat_append concat.simps(2) mset_append add.assoc)
  moreover from assms have "ws[w := a] = take w ws @ a # drop (Suc w) ws"
    by (rule upd_conv_take_nth_drop)
  then have "mset (concat (map held (ws[w := a]))) =
      mset (concat (map held (take w ws))) + mset (held a) +
      mset (concat (map held (drop (Suc w) ws)))"
    by simp
  ultimately show ?thesis by simp
qed

lemma worker_step_decreases:
  assumes "worker_step call w s = Some s'"
  shows "steps_left s' < steps_left s"
proof -
  from assms have w: "w < length (workers s)"
    by (auto simp: worker_step_def split: if_splits)
  note u = weight_update [OF w]
  show ?thesis
  proof (cases "workers s ! w")
    case (Pulling vals)
    show ?thesis
    proof (cases "iterator s")
      case Nil
      with assms w Pulling have "s' = s\<lparr>workers := (workers s)[w := Resolved vals]\<rparr>"
        by (simp add: worker_step_def)
      with u [of "Resolved vals"] Pulling show ?thesis by (simp add: steps_left_def)
    next
      case (Cons item rest)
      with assms w Pulling have "s' = s\<lparr>iterator := rest,
          workers := (workers s)[w := Awaiting vals (call item)], called := called s @ [item]\<rparr>"
        by (simp add: worker_step_def)
      with u [of "Awaiting vals (call item)"] Pulling Cons show ?thesis
        by (simp add: steps_left_def)
    qed
  next
    case (Awaiting vals r)
    show ?thesis
    proof (cases r)
      case (Inl e)
      with assms w Awaiting have "s' = s\<lparr>workers := (workers s)[w := Thrown e]\<rparr>"
        by (simp add: worker_step_def)
      with u [of "Thrown e"] Awaiting show ?thesis by (simp add: steps_left_def)
    next
      case (Inr val)
      with assms w Awaiting have "s' = s\<lparr>workers := (workers s)[w := Pulling (vals @ [val])]\<rparr>"
        by (simp add: worker_step_def)
      with u [of "Pulling (vals @ [val])"] Awaiting show ?thesis by (simp add: steps_left_def)
    qed
  next
    case (Resolved vals)
    with assms w show ?thesis by (simp add: worker_step_def)
  next
    case (Thrown e)
    with assms w show ?thesis by (simp add: worker_step_def)
  qed
qed

lemma run_schedule_bounded:
  "run_schedule call sched s = Some s' \<Longrightarrow> length sched + steps_left s' \<le> steps_left s"
proof (induction sched arbitrary: s)
  case Nil
  then show ?case by simp
next
  case (Cons w sched)
  then obtain s1 where s1: "worker_step call w s = Some s1"
    and r: "run_schedule call sched s1 = Some s'"
    by (auto split: option.splits)
  from Cons.IH [OF r] worker_step_decreases [OF s1] show ?case by simp
qed

lemma steps_left_start: "steps_left (start_batch items c) = 2 * length items + c"
  by (simp add: steps_left_def start_batch_def sum_list_replicate)

lemma reaches_quiescent:
  "\<exists>sched s'. run_schedule call sched s = Some s' \<and> quiescent call s'"
proof (induction "steps_left s" arbitrary: s rule: less_induct)
  case less
  show ?case
  proof (cases "quiescent call s")
    case True
    then have "run_schedule call [] s = Some s \<and> quiescent call s" by simp
    then show ?thesis by blast
  next
    case False
    then obtain w s1 where s1: "worker_step call w s = Some s1"
      by (auto simp: quiescent_def)
    from less [OF worker_step_decreases [OF s1]] obtain sched s' where
      "run_schedule call sched s1 = Some s'" "quiescent call s'" by blast
    with s1 have "run_schedule call (w # sched) s = Some s' \<and> quiescent call s'" by simp
    then show ?thesis by blast
  qed
qed

lemma batch_inv_start: "batch_inv items f (start_batch items c)"
  by (simp add: batch_inv_def start_batch_def)

lemma set_update_sound:
  assumes "\<forall>a \<in> set ws. P a" "P b"
  shows "\<forall>a \<in> set (ws[w := b]). P a"
  using assms set_update_subset_insert [of ws w b] by auto

lemma sound_worker_rest:
  "sound_worker (item # rest) a \<Longrightarrow> sound_worker rest a"
  by (cases a) simp_all

lemma batch_inv_step:
  assumes inv: "batch_inv items f s"
    and ok: "\<forall>t \<in> set items. call t = Inr (f t)"
    and st: "worker_step call w s = Some s'"
  shows "batch_inv items f s'"
proof -
  from st have w: "w < length (workers s)"
    by (auto simp: worker_step_def split: if_splits)
  from inv have c: "called s @ iterator s = items"
    and m: "mset (concat (map held (workers s))) = mset (map f (called s))"
    and sw: "\<forall>a \<in> set (workers s). sound_worker (iterator s) a"
    by (simp_all add: batch_inv_def)
  from w sw have sww: "sound_worker (iterator s) (workers s ! w)" by simp
  note h = held_update [OF w]
  show ?thesis
  proof (cases "workers s ! w")
    case (Pulling vals)
    show ?thesis
    proof (cases "iterator s")
      case Nil
      with st w Pulling have s': "s' = s\<lparr>workers := (workers s)[w := Resolved vals]\<rparr>"
        by (simp add: worker_step_def)
      from h [of "Resolved vals"] Pulling m
      have "mset (concat (map held ((workers s)[w := Resolved vals]))) = mset (map f (called s))"
        by simp
      moreover from Nil sw
      have "\<forall>a \<in> set ((workers s)[w := Resolved vals]). sound_worker (iterator s) a"
        by (intro set_update_sound) simp_all
      ultimately show ?thesis using c s' by (simp add: batch_inv_def)
    next
      case (Cons item rest)
      with st w Pulling have s': "s' = s\<lparr>iterator := rest,
          workers := (workers s)[w := Awaiting vals (call item)], called := called s @ [item]\<rparr>"
        by (simp add: worker_step_def)
      from c Cons have "item \<in> set items" by auto
      with ok have ci: "call item = Inr (f item)" by simp
      from h [of "Awaiting vals (call item)"] Pulling m ci
      have "mset (concat (map held ((workers s)[w := Awaiting vals (call item)]))) =
            mset (map f (called s @ [item]))"
        by simp
      moreover from sw Cons have "\<forall>a \<in> set (workers s). sound_worker rest a"
        by (auto dest: sound_worker_rest)
      then have "\<forall>a \<in> set ((workers s)[w := Awaiting vals (call item)]). sound_worker rest a"
        using ci by (intro set_update_sound) simp_all
      ultimately show ?thesis using c Cons s' by (simp add: batch_inv_def)
    qed
  next
    case (Awaiting vals r)
    with sww obtain val where r: "r = Inr val" by (cases r) simp_all
    with st w Awaiting have s': "s' = s\<lparr>workers := (workers s)[w := Pulling (vals @ [val])]\<rparr>"
      by (simp add: worker_step_def)
    from h [of "Pulling (vals @ [val])"] Awaiting r m
    have "mset (concat (map held ((workers s)[w := Pulling (vals @ [val])]))) =
          mset (map f (called s))"
      by simp
    moreover from sw
    have "\<forall>a \<in> set ((workers s)[w := Pulling (vals @ [val])]). sound_worker (iterator s) a"
      by (intro set_update_sound) simp_all
    ultimately show ?thesis using c s' by (simp add: batch_inv_def)
  next
    case (Resolved vals)
    with st w show ?thesis by (simp add: worker_step_def)
  next
    case (Thrown e)
    with st w show ?thesis by (simp add: worker_step_def)
  qed
qed

lemma batch_inv_run:
  assumes "\<forall>t \<in> set items. call t = Inr (f t)"
  shows "batch_inv items f s \<Longrightarrow> run_schedule call sched s = Some s' \<Longrightarrow> batch_inv items f s'"
proof (induction sched arbitrary: s)
  case Nil
  then show ?case by simp
next
  case (Cons w sched)
  from Cons.prems(2) obtain s1 where s1: "worker_step call w s = Some s1"
    and r: "run_schedule call sched s1 = Some s'"
    by (auto split: option.splits)
  from batch_inv_step [OF Cons.prems(1) assms s1] r show ?case
    by (rule Cons.IH)
qed

lemma promise_all_Fulfilled:
  "promise_all (map worker_promise ws) = Fulfilled groups \<Longrightarrow>
   groups = map held ws \<and> (\<forall>a \<in> set ws. \<exists>vals. a = Resolved vals)"
proof (induction ws arbitrary: groups)
  case Nil
  then show ?case by simp
next
  case (Cons a ws)
  then show ?case
    by (cases a) (auto split: promise.splits)
qed

lemma promise_all_Resolved:
  "\<forall>a \<in> set ws. \<exists>vals. a = Resolved vals \<Longrightarrow>
   promise_all (map worker_promise ws) = Fulfilled (map held ws)"
  by (induction ws) auto

lemma promise_all_not_Rejected:
  "promise_all (map worker_promise ws) \<noteq> Rejected e"
proof (induction ws)
  case Nil
  show ?case by simp
next
  case (Cons a ws)
  then show ?case
    by (cases a) (auto split: promise.splits)
qed

lemma quiescent_workers:
  assumes "quiescent call s" "a \<in> set (workers s)"
  shows "(\<exists>vals. a = Resolved vals) \<or> (\<exists>e. a = Thrown e)"
proof -
  from assms(2) obtain w where w: "w < length (workers s)" and a: "workers s ! w = a"
    by (auto simp: in_set_conv_nth)
  with assms(1) have "worker_step call w s = None" by (simp add: quiescent_def)
  with w a show ?thesis
    by (cases a) (auto simp: worker_step_def split: list.splits sum.splits)
qed

lemma fulfilled_batch:
  assumes inv: "batch_inv items f s"
    and c: "0 < length (workers s)"
    and p: "asynccParallel s = Fulfilled groups"
  shows "length (concat groups) = length items \<and>
         mset (concat groups) = mset (map f items) \<and> called s = items"
proof -
  from p have g: "groups = map held (workers s)"
    and r: "\<forall>a \<in> set (workers s). \<exists>vals. a = Resolved vals"
    using promise_all_Fulfilled [of "workers s" groups] by (simp_all add: asynccParallel_def)
  from c have "workers s ! 0 \<in> set (workers s)" by simp
  with r obtain vals where "Resolved vals \<in> set (workers s)" by metis
  with inv have "iterator s = []" by (auto simp: batch_inv_def)
  with inv have cs: "called s = items" by (simp add: batch_inv_def)
  from inv g cs have m: "mset (concat groups) = mset (map f items)" by (simp add: batch_inv_def)
  then have "size (mset (concat groups)) = size (mset (map f items))" by simp
  then have "length (concat groups) = length items" by simp
  with m cs show ?thesis by simp
qed

lemma quiescent_fulfilled:
  assumes inv: "batch_inv items f s" and q: "quiescent call s"
  shows "asynccParallel s = Fulfilled (map held (workers s))"
proof -
  have "\<exists>vals. a = Resolved vals" if "a \<in> set (workers s)" for a
  proof -
    from inv that have "sound_worker (iterator s) a" by (simp add: batch_inv_def)
    with quiescent_workers [OF q that] show ?thesis by auto
  qed
  then show ?thesis
    by (simp add: asynccParallel_def promise_all_Resolved)
qed

lemma failed_worker_Awaiting: "failed_worker (Awaiting vals r) = isl r"
  by (cases r) simp_all

lemma failed_worker_update:
  assumes "\<exists>a \<in> set ws. failed_worker a"
    and "failed_worker (ws ! w) \<longrightarrow> failed_worker b"
  shows "\<exists>a \<in> set (ws[w := b]). failed_worker a"
proof -
  from assms(1) obtain k where k: "k < length ws" and f: "failed_worker (ws ! k)"
    by (auto simp: in_set_conv_nth)
  show ?thesis
  proof (cases "k = w")
    case True
    with k f assms(2) have "failed_worker (ws[w := b] ! w)" by simp
    moreover from True k have "ws[w := b] ! w \<in> set (ws[w := b])"
      by (simp add: set_update_memI)
    ultimately show ?thesis by blast
  next
    case False
    with k f have "failed_worker (ws[w := b] ! k)" by simp
    moreover from k have "ws[w := b] ! k \<in> set (ws[w := b])" by simp
    ultimately show ?thesis by blast
  qed
qed

lemma failed_worker_new:
  "w < length ws \<Longrightarrow> failed_worker b \<Longrightarrow> \<exists>a \<in> set (ws[w := b]). failed_worker a"
  by (metis set_update_memI)

lemma failure_kept_step:
  assumes k: "failure_kept call s" and st: "worker_step call w s = Some s'"
  shows "failure_kept call s'"
proof -
  from st have w: "w < length (workers s)"
    by (auto simp: worker_step_def split: if_splits)
  show ?thesis
  proof (cases "workers s ! w")
    case (Pulling vals)
    show ?thesis
    proof (cases "iterator s")
      case Nil
      with st w Pulling have s': "s' = s\<lparr>workers := (workers s)[w := Resolved vals]\<rparr>"
        by (simp add: worker_step_def)
      from Pulling have "failed_worker (workers s ! w) \<longrightarrow> failed_worker (Resolved vals)"
        by simp
      with k s' show ?thesis
        by (auto simp: failure_kept_def intro: failed_worker_update)
    next
      case (Cons item rest)
      with st w Pulling have s': "s' = s\<lparr>iterator := rest,
          workers := (workers s)[w := Awaiting vals (call item)], called := called s @ [item]\<rparr>"
        by (simp add: worker_step_def)
      show ?thesis
      proof (cases "isl (call item)")
        case True
        then have "failed_worker (Awaiting vals (call item))"
          by (simp add: failed_worker_Awaiting)
        from failed_worker_new [OF w this] s' show ?thesis
          by (simp add: failure_kept_def)
      next
        case False
        from Pulling
        have "failed_worker (workers s ! w) \<longrightarrow> failed_worker (Awaiting vals (call item))"
          by simp
        with k s' False show ?thesis
          by (auto simp: failure_kept_def intro: failed_worker_update)
      qed
    qed
  next
    case (Awaiting vals r)
    show ?thesis
    proof (cases r)
      case (Inl e)
      with st w Awaiting have s': "s' = s\<lparr>workers := (workers s)[w := Thrown e]\<rparr>"
        by (simp add: worker_step_def)
      have "failed_worker (Thrown e)" by simp
      from failed_worker_new [OF w this] s' show ?thesis
        by (simp add: failure_kept_def)
    next
      case (Inr val)
      with st w Awaiting have s': "s' = s\<lparr>workers := (workers s)[w := Pulling (vals @ [val])]\<rparr>"
        by (simp add: worker_step_def)
      from Awaiting Inr
      have "failed_worker (workers s ! w) \<longrightarrow> failed_worker (Pulling (vals @ [val]))"
        by simp
      with k s' show ?thesis
        by (auto simp: failure_kept_def intro: failed_worker_update)
    qed
  next
    case (Resolved vals)
    with st w show ?thesis by (simp add: worker_step_def)
  next
    case (Thrown e)
    with st w show ?thesis by (simp add: worker_step_def)
  qed
qed

lemma failure_kept_run:
  "failure_kept call s \<Longrightarrow> run_schedule call sched s = Some s' \<Longrightarrow> failure_kept call s'"
proof (induction sched arbitrary: s)
  case Nil
  then show ?case by simp
next
  case (Cons w sched)
  from Cons.prems(2) obtain s1 where s1: "worker_step call w s = Some s1"
    and r: "run_schedule call sched s1 = Some s'"
    by (auto split: option.splits)
  from failure_kept_step [OF Cons.prems(1) s1] r show ?case
    by (rule Cons.IH)
qed

lemma failed_worker_pending:
  assumes "a \<in> set ws" "failed_worker a"
  shows "promise_all (map worker_promise ws) = Pending"
proof (cases "promise_all (map worker_promise ws)")
  case Pending
  then show ?thesis .
next
  case (Fulfilled groups)
  from promise_all_Fulfilled [OF this] assms show ?thesis by auto
next
  case (Rejected e)
  with promise_all_not_Rejected [of ws e] show ?thesis by simp
qed

lemma asynccParallel_never_rejected:
  "run_schedule call sched (start_batch items concurrency) = Some s \<longrightarrow>
     (\<forall>e. asynccParallel s \<noteq> Rejected e) \<and>
     ((\<exists>t \<in> set (called s). isl (call t)) \<longrightarrow> asynccParallel s = Pending)"
proof (intro impI conjI allI)
  fix e
  show "asynccParallel s \<noteq> Rejected e"
    by (simp add: asynccParallel_def promise_all_not_Rejected)
next
  assume r: "run_schedule call sched (start_batch items concurrency) = Some s"
    and f: "\<exists>t \<in> set (called s). isl (call t)"
  have "failure_kept call (start_batch items concurrency)"
    by (simp add: failure_kept_def start_batch_def)
  from failure_kept_run [OF this r] f obtain a where
    "a \<in> set (workers s)" "failed_worker a"
    by (auto simp: failure_kept_def)
  then show "asynccParallel s = Pending"
    unfolding asynccParallel_def by (rule failed_worker_pending)
qed

section \<open>Properties of the tessellator\<close>

lemma includedAngle_1: "includedAngle 1 = pi"
  by (simp add: includedAngle_def arctan_one)

lemma default_segments_1: "default_segments 1 = 18"
  by (simp add: default_segments_def includedAngle_1)

lemma BulgeGeometry_fields:
  "this_startPoint (BulgeGeometry s e bo no) = s"
  "this_endPoint (BulgeGeometry s e bo no) = e"
  "this_bulge (BulgeGeometry s e bo no) = spec_bulge bo"
  "this_segments (BulgeGeometry s e bo no) =
     (case no of None \<Rightarrow> default_segments (spec_bulge bo)
      | Some n \<Rightarrow> if n = 0 then default_segments (spec_bulge bo) else n)"
  by (auto simp: BulgeGeometry_def Let_def spec_bulge_def default_segments_def includedAngle_def
      split: option.splits)

lemma BulgeGeometry_vertices:
  "this_vertices (BulgeGeometry s e bo no) =
     s # map (spec_arc_point s e (spec_bulge bo) (this_segments (BulgeGeometry s e bo no)))
           [1..<this_segments (BulgeGeometry s e bo no)]"
  by (auto simp: BulgeGeometry_def Let_def spec_bulge_def spec_arc_point_def spec_center_def
      spec_radius_def includedAngle_def split: option.splits)

lemma semicircle_radius: "spec_radius \<lparr>x = 0, y = 0\<rparr> \<lparr>x = 2, y = 0\<rparr> 1 = 1"
  by (simp add: spec_radius_def includedAngle_1 distanceTo_def)

lemma semicircle_center:
  "spec_center \<lparr>x = 0, y = 0\<rparr> \<lparr>x = 2, y = 0\<rparr> 1 = \<lparr>x = 1, y = 0\<rparr>"
  by (simp add: spec_center_def semicircle_radius includedAngle_1 angle2_def polar_def)

lemma semicircle_startAngle: "angle2 \<lparr>x = 1, y = 0\<rparr> \<lparr>x = 0, y = 0\<rparr> = pi"
  by (simp add: angle2_def)

lemma semicircle_arc_point:
  "spec_arc_point \<lparr>x = 0, y = 0\<rparr> \<lparr>x = 2, y = 0\<rparr> 1 18 i =
     \<lparr>x = 1 + cos (pi + pi / 18 * real i), y = sin (pi + pi / 18 * real i)\<rparr>"
  by (simp add: spec_arc_point_def semicircle_center semicircle_radius semicircle_startAngle
      includedAngle_1 polar_def)

lemma semicircle_segments:
  "this_segments (BulgeGeometry \<lparr>x = 0, y = 0\<rparr> \<lparr>x = 2, y = 0\<rparr> (Some 1) None) = 18"
  by (simp add: BulgeGeometry_fields spec_bulge_def default_segments_1)

lemma semicircle_vertices:
  "this_vertices (BulgeGeometry \<lparr>x = 0, y = 0\<rparr> \<lparr>x = 2, y = 0\<rparr> (Some 1) None) =
     \<lparr>x = 0, y = 0\<rparr> #
     map (\<lambda>i. \<lparr>x = 1 + cos (pi + pi / 18 * real i), y = sin (pi + pi / 18 * real i)\<rparr>) [1..<18]"
  unfolding BulgeGeometry_vertices semicircle_segments
  by (simp add: spec_bulge_def semicircle_arc_point)

lemma cos_sin_3pi_2: "cos (3 * pi / 2) = 0" "sin (3 * pi / 2) = - 1"
proof -
  have e: "3 * pi / 2 = pi + pi / 2" by simp
  show "cos (3 * pi / 2) = 0" unfolding e cos_add by simp
  show "sin (3 * pi / 2) = - 1" unfolding e sin_add by simp
qed

lemma semicircle_middle:
  "this_vertices (BulgeGeometry \<lparr>x = 0, y = 0\<rparr> \<lparr>x = 2, y = 0\<rparr> (Some 1) None) ! 9 =
     \<lparr>x = 1, y = - 1\<rparr>"
  unfolding semicircle_vertices by (simp add: nth_Cons' cos_sin_3pi_2)

lemma arctan_partial_sums:
  assumes "0 < t" "t \<le> 1"
  shows "(\<Sum>i<2 * n. (- 1) ^ i * (1 / real (i * 2 + 1) * t ^ (i * 2 + 1))) \<le> arctan t"
    and "arctan t \<le> (\<Sum>i<2 * n + 1. (- 1) ^ i * (1 / real (i * 2 + 1) * t ^ (i * 2 + 1)))"
proof -
  from assms have a: "\<bar>t\<bar> \<le> 1" by simp
  let ?a = "\<lambda>n. 1 / real (n * 2 + 1) * t ^ (n * 2 + 1)"
  from assms have "0 < ?a 0" by simp
  with summable_Leibniz(2) [OF zeroseq_arctan_series [OF a] monoseq_arctan_series [OF a]]
  have "(\<Sum>i. (- 1) ^ i * ?a i) \<in> {\<Sum>i<2 * n. (- 1) ^ i * ?a i .. \<Sum>i<2 * n + 1. (- 1) ^ i * ?a i}"
    by blast
  then show "(\<Sum>i<2 * n. (- 1) ^ i * ?a i) \<le> arctan t"
    and "arctan t \<le> (\<Sum>i<2 * n + 1. (- 1) ^ i * ?a i)"
    by (simp_all add: arctan_series [OF a])
qed

lemma arctan_half_bounds: "11 / 24 \<le> arctan (1 / 2)" "arctan (1 / 2) \<le> 223 / 480"
proof -
  have "(0::real) < 1 / 2" "(1::real) / 2 \<le> 1" by simp_all
  from arctan_partial_sums [OF this, of 1]
  show "11 / 24 \<le> arctan (1 / 2)" "arctan (1 / 2) \<le> 223 / 480"
    by (simp_all add: eval_nat_numeral)
qed

lemma arctan_third_bounds: "26 / 81 \<le> arctan (1 / 3)" "arctan (1 / 3) \<le> 1 / 3"
proof -
  have h: "(0::real) < 1 / 3" "(1::real) / 3 \<le> 1" by simp_all
  from arctan_partial_sums(1) [OF h, of 1]
  show "26 / 81 \<le> arctan (1 / 3)"
    by (simp add: eval_nat_numeral)
  from arctan_partial_sums(2) [OF h, of 0]
  show "arctan (1 / 3) \<le> 1 / 3"
    by simp
qed

lemma pi_arctan_half_third: "pi = 4 * arctan (1 / 2) + 4 * arctan (1 / 3)"
proof -
  have "arctan (1 / 2) + arctan (1 / 3) = arctan ((1 / 2 + 1 / 3) / (1 - 1 / 2 * (1 / 3)))"
    by (rule arctan_add) simp_all
  also have "(1 / 2 + 1 / 3) / (1 - 1 / 2 * (1 / 3)) = (1::real)" by simp
  finally show ?thesis by (simp add: arctan_one)
qed

lemma angle_half_bulge:
  "10 < 4 * arctan (1 / 2) / (pi / 18)" "4 * arctan (1 / 2) / (pi / 18) < 11"
proof -
  have p: "0 < pi / 18" by simp
  have "10 * (pi / 18) < 4 * arctan (1 / 2)"
    using arctan_half_bounds arctan_third_bounds
    by (simp add: pi_arctan_half_third)
  with p show "10 < 4 * arctan (1 / 2) / (pi / 18)"
    by (simp only: pos_less_divide_eq)
  have "4 * arctan (1 / 2) < 11 * (pi / 18)"
    using arctan_half_bounds arctan_third_bounds
    by (simp add: pi_arctan_half_third)
  with p show "4 * arctan (1 / 2) / (pi / 18) < 11"
    by (simp only: pos_divide_less_eq)
qed

lemma includedAngle_minus_half: "includedAngle (- 1 / 2) = - (4 * arctan (1 / 2))"
  using arctan_minus [of "1 / 2"] by (simp add: includedAngle_def)

lemma default_segments_minus_half: "default_segments (- 1 / 2) = 10"
proof -
  let ?z = "4 * arctan (1 / 2) / (pi / 18)"
  have "\<lceil>- ?z\<rceil> = - 10"
    using angle_half_bulge by (intro ceiling_unique) simp_all
  then have "\<bar>\<lceil>includedAngle (- 1 / 2) / (pi / 18)\<rceil>\<bar> = 10"
    unfolding includedAngle_minus_half by simp
  then show ?thesis
    unfolding default_segments_def by simp
qed

lemma spec_segmentCount_minus_half: "spec_segmentCount (- 1 / 2) = 11"
proof -
  let ?z = "4 * arctan (1 / 2) / (pi / 18)"
  have "\<lceil>?z\<rceil> = 11"
    using angle_half_bulge by (intro ceiling_unique) simp_all
  moreover have "0 \<le> arctan (1 / 2 :: real)" by simp
  ultimately have "\<lceil>\<bar>includedAngle (- 1 / 2)\<bar> / (pi / 18)\<rceil> = 11"
    unfolding includedAngle_minus_half by simp
  then show ?thesis
    unfolding spec_segmentCount_def by simp
qed

lemma default_segments_nonneg:
  assumes "0 \<le> b"
  shows "default_segments b = spec_segmentCount b"
proof -
  from assms have "0 \<le> includedAngle b" by (simp add: includedAngle_def)
  moreover from this have "0 \<le> \<lceil>includedAngle b / (pi / 18)\<rceil>"
    by (simp add: ceiling_le_iff less_le_trans [of "- 1" 0])
  ultimately show ?thesis
    by (simp add: default_segments_def spec_segmentCount_def)
qed

lemma default_segments_neg:
  assumes "b < 0"
  shows "default_segments b = max (nat \<lfloor>\<bar>includedAngle b\<bar> / (pi / 18)\<rfloor>) 6"
proof -
  from assms have n: "includedAngle b < 0" by (simp add: includedAngle_def)
  then have "includedAngle b / (pi / 18) \<le> 0"
    by (simp add: divide_nonpos_pos)
  then have "\<lceil>includedAngle b / (pi / 18)\<rceil> \<le> 0"
    by (simp add: ceiling_le_iff)
  then have "\<bar>\<lceil>includedAngle b / (pi / 18)\<rceil>\<bar> = - \<lceil>includedAngle b / (pi / 18)\<rceil>"
    by simp
  also have "\<dots> = \<lfloor>- (includedAngle b / (pi / 18))\<rfloor>"
    by (simp add: ceiling_def)
  also from n have "- (includedAngle b / (pi / 18)) = \<bar>includedAngle b\<bar> / (pi / 18)"
    by simp
  finally show ?thesis
    by (simp add: default_segments_def)
qed

lemma distanceTo_pos: "p \<noteq> q \<Longrightarrow> 0 < distanceTo p q"
proof -
  assume "p \<noteq> q"
  then have "x p - x q \<noteq> 0 \<or> y p - y q \<noteq> 0"
    by (auto simp: point_eq_iff)
  then have "0 < (x p - x q) * (x p - x q) + (y p - y q) * (y p - y q)"
    by (auto simp: sum_power2_gt_zero_iff power2_eq_square [symmetric])
  then show ?thesis by (simp add: distanceTo_def)
qed

lemma distanceTo_square:
  "distanceTo p q * distanceTo p q = (x q - x p) * (x q - x p) + (y q - y p) * (y q - y p)"
proof -
  have "0 \<le> (x q - x p) * (x q - x p) + (y q - y p) * (y q - y p)"
    by (simp add: power2_eq_square [symmetric])
  moreover have "distanceTo p q = sqrt ((x q - x p) * (x q - x p) + (y q - y p) * (y q - y p))"
    by (simp add: distanceTo_def algebra_simps)
  ultimately show ?thesis by simp
qed

lemma angle2_cos_sin:
  assumes "p \<noteq> q"
  shows "cos (angle2 p q) = (x q - x p) / distanceTo p q"
    and "sin (angle2 p q) = (y q - y p) / distanceTo p q"
proof -
  let ?d = "distanceTo p q"
  let ?nx = "(x q - x p) / ?d" and ?ny = "(y q - y p) / ?d"
  from distanceTo_pos [OF assms] have d: "0 < ?d" .
  have len: "sqrt ((x q - x p) * (x q - x p) + (y q - y p) * (y q - y p) + 0 * 0) = ?d"
    by (simp add: distanceTo_def algebra_simps)
  have a: "angle2 p q = (if ?ny < 0 then - arccos ?nx else arccos ?nx)"
    using d unfolding angle2_def Let_def len by simp
  have "?nx * ?nx + ?ny * ?ny =
      ((x q - x p) * (x q - x p) + (y q - y p) * (y q - y p)) / (?d * ?d)"
    by (simp add: add_divide_distrib)
  also have "\<dots> = (?d * ?d) / (?d * ?d)"
    by (simp only: distanceTo_square)
  also from d have "\<dots> = 1" by simp
  finally have one: "?nx\<^sup>2 + ?ny\<^sup>2 = 1"
    by (simp add: power2_eq_square)
  then have "?nx\<^sup>2 \<le> 1"
    using zero_le_power2 [of ?ny] by linarith
  then have b: "\<bar>?nx\<bar> \<le> 1"
    by (simp add: abs_le_square_iff [of ?nx 1, simplified])
  then have c: "cos (arccos ?nx) = ?nx"
    by (simp add: cos_arccos_abs)
  from b have "sin (arccos ?nx) = sqrt (1 - ?nx\<^sup>2)"
    by (rule sin_arccos_abs)
  also from one have "1 - ?nx\<^sup>2 = ?ny\<^sup>2" by simp
  finally have s: "sin (arccos ?nx) = \<bar>?ny\<bar>" by simp
  from a c show "cos (angle2 p q) = ?nx" by simp
  show "sin (angle2 p q) = ?ny"
  proof (cases "?ny < 0")
    case True
    with a have "sin (angle2 p q) = - sin (arccos ?nx)" by simp
    also from s True have "\<dots> = ?ny" by (simp only: abs_of_neg)
    finally show ?thesis .
  next
    case False
    with a have "sin (angle2 p q) = sin (arccos ?nx)" by simp
    also from s False have "\<dots> = ?ny" by (simp only: abs_of_nonneg not_less)
    finally show ?thesis .
  qed
qed

lemma chord_trig:
  fixes r a h :: real
  shows "- r * cos (a + (pi / 2 - h)) + 2 * r * sin h * cos a = - r * cos (a + (pi / 2 - h) + 2 * h)"
    and "- r * sin (a + (pi / 2 - h)) + 2 * r * sin h * sin a = - r * sin (a + (pi / 2 - h) + 2 * h)"
proof -
  have e1: "a + (pi / 2 - h) = (a - h) + pi / 2" by simp
  have e2: "a + (pi / 2 - h) + 2 * h = (a + h) + pi / 2" by simp
  have c1: "cos (a + (pi / 2 - h)) = - sin (a - h)" and s1: "sin (a + (pi / 2 - h)) = cos (a - h)"
    unfolding e1 by (simp_all add: cos_add sin_add)
  have c2: "cos (a + (pi / 2 - h) + 2 * h) = - sin (a + h)"
    and s2: "sin (a + (pi / 2 - h) + 2 * h) = cos (a + h)"
    unfolding e2 by (simp_all add: cos_add sin_add)
  show "- r * cos (a + (pi / 2 - h)) + 2 * r * sin h * cos a = - r * cos (a + (pi / 2 - h) + 2 * h)"
    unfolding c2 c1 by (simp add: sin_add sin_diff algebra_simps)
  show "- r * sin (a + (pi / 2 - h)) + 2 * r * sin h * sin a = - r * sin (a + (pi / 2 - h) + 2 * h)"
    unfolding s2 s1 by (simp add: cos_add cos_diff algebra_simps)
qed

lemma includedAngle_bounds: "- (2 * pi) < includedAngle b" "includedAngle b < 2 * pi"
  using arctan_lbound [of b] arctan_ubound [of b] by (simp_all add: includedAngle_def)

lemma includedAngle_nonzero: "b \<noteq> 0 \<Longrightarrow> includedAngle b \<noteq> 0"
  by (simp add: includedAngle_def)

lemma sin_half_angle_nonzero:
  assumes "b \<noteq> 0"
  shows "sin (includedAngle b / 2) \<noteq> 0"
proof -
  let ?h = "includedAngle b / 2"
  from includedAngle_bounds [of b] have h: "- pi < ?h" "?h < pi" by simp_all
  from includedAngle_nonzero [OF assms] have "?h < 0 \<or> 0 < ?h" by auto
  then show ?thesis
  proof
    assume "0 < ?h"
    with h have "0 < sin ?h" by (intro sin_gt_zero)
    then show ?thesis by simp
  next
    assume n: "?h < 0"
    with h have "0 < sin (- ?h)" by (intro sin_gt_zero) simp_all
    then show ?thesis by simp
  qed
qed

lemma spec_radius_nonzero:
  assumes "s \<noteq> e" "b \<noteq> 0"
  shows "spec_radius s e b \<noteq> 0"
  using distanceTo_pos [OF assms(1)] sin_half_angle_nonzero [OF assms(2)]
  by (simp add: spec_radius_def)

lemma chord_length:
  assumes "b \<noteq> 0"
  shows "distanceTo s e = 2 * spec_radius s e b * sin (includedAngle b / 2)"
  using sin_half_angle_nonzero [OF assms] by (simp add: spec_radius_def)

lemma center_coords:
  "x (spec_center s e b) =
     x s + spec_radius s e b * cos (angle2 s e + (pi / 2 - includedAngle b / 2))"
  "y (spec_center s e b) =
     y s + spec_radius s e b * sin (angle2 s e + (pi / 2 - includedAngle b / 2))"
  by (simp_all add: spec_center_def polar_def)

lemma end_on_arc:
  assumes se: "s \<noteq> e" and b: "b \<noteq> 0"
  shows "x e = x (spec_center s e b) -
           spec_radius s e b * cos (angle2 s e + (pi / 2 - includedAngle b / 2) + includedAngle b)"
    and "y e = y (spec_center s e b) -
           spec_radius s e b * sin (angle2 s e + (pi / 2 - includedAngle b / 2) + includedAngle b)"
proof -
  let ?r = "spec_radius s e b" and ?h = "includedAngle b / 2" and ?a = "angle2 s e"
  let ?d = "distanceTo s e"
  from distanceTo_pos [OF se] have d: "?d \<noteq> 0" by simp
  have A: "includedAngle b = 2 * ?h" by simp
  from angle2_cos_sin(1) [OF se] d have "x e = x s + ?d * cos ?a"
    by (simp add: field_simps)
  then have xe: "x e = x s + 2 * ?r * sin ?h * cos ?a"
    by (simp only: chord_length [OF b, of s e])
  from angle2_cos_sin(2) [OF se] d have "y e = y s + ?d * sin ?a"
    by (simp add: field_simps)
  then have ye: "y e = y s + 2 * ?r * sin ?h * sin ?a"
    by (simp only: chord_length [OF b, of s e])
  have "x e = x (spec_center s e b) + (- ?r * cos (?a + (pi / 2 - ?h)) + 2 * ?r * sin ?h * cos ?a)"
    unfolding center_coords using xe by simp
  also have "\<dots> = x (spec_center s e b) + (- ?r * cos (?a + (pi / 2 - ?h) + 2 * ?h))"
    by (simp only: chord_trig)
  finally show "x e = x (spec_center s e b) - ?r * cos (?a + (pi / 2 - ?h) + includedAngle b)"
    by simp
  have "y e = y (spec_center s e b) + (- ?r * sin (?a + (pi / 2 - ?h)) + 2 * ?r * sin ?h * sin ?a)"
    unfolding center_coords using ye by simp
  also have "\<dots> = y (spec_center s e b) + (- ?r * sin (?a + (pi / 2 - ?h) + 2 * ?h))"
    by (simp only: chord_trig)
  finally show "y e = y (spec_center s e b) - ?r * sin (?a + (pi / 2 - ?h) + includedAngle b)"
    by simp
qed

lemma center_distance: "distanceTo (spec_center s e b) s = \<bar>spec_radius s e b\<bar>"
proof -
  let ?r = "spec_radius s e b" and ?f = "angle2 s e + (pi / 2 - includedAngle b / 2)"
  have g: "(r * c) * (r * c) + (r * d) * (r * d) = r\<^sup>2 * (d\<^sup>2 + c\<^sup>2)" for r c d :: real
    by (simp add: power2_eq_square algebra_simps)
  have dx: "x (spec_center s e b) - x s = ?r * cos ?f"
    and dy: "y (spec_center s e b) - y s = ?r * sin ?f"
    unfolding center_coords by simp_all
  have "(x (spec_center s e b) - x s) * (x (spec_center s e b) - x s) +
        (y (spec_center s e b) - y s) * (y (spec_center s e b) - y s) =
        ?r\<^sup>2 * ((sin ?f)\<^sup>2 + (cos ?f)\<^sup>2)"
    unfolding dx dy by (rule g)
  also have "\<dots> = ?r\<^sup>2" by simp
  finally show ?thesis
    by (simp add: distanceTo_def)
qed

lemma center_not_start:
  assumes "s \<noteq> e" "b \<noteq> 0"
  shows "spec_center s e b \<noteq> s"
proof
  assume "spec_center s e b = s"
  then have "distanceTo (spec_center s e b) s = 0"
    by (simp add: distanceTo_def)
  with center_distance [of s e b] spec_radius_nonzero [OF assms] show False by simp
qed

lemma startAngle_cos_sin:
  assumes se: "s \<noteq> e" and b: "b \<noteq> 0"
  shows "\<bar>spec_radius s e b\<bar> * cos (angle2 (spec_center s e b) s) =
           - spec_radius s e b * cos (angle2 s e + (pi / 2 - includedAngle b / 2))"
    and "\<bar>spec_radius s e b\<bar> * sin (angle2 (spec_center s e b) s) =
           - spec_radius s e b * sin (angle2 s e + (pi / 2 - includedAngle b / 2))"
proof -
  let ?c = "spec_center s e b" and ?r = "spec_radius s e b"
  from spec_radius_nonzero [OF se b] have r: "\<bar>?r\<bar> \<noteq> 0" by simp
  note cs = angle2_cos_sin [OF center_not_start [OF se b], unfolded center_distance]
  from cs(1) r have "\<bar>?r\<bar> * cos (angle2 ?c s) = x s - x ?c"
    by (simp add: field_simps)
  then show "\<bar>?r\<bar> * cos (angle2 ?c s) =
      - ?r * cos (angle2 s e + (pi / 2 - includedAngle b / 2))"
    unfolding center_coords by simp
  from cs(2) r have "\<bar>?r\<bar> * sin (angle2 ?c s) = y s - y ?c"
    by (simp add: field_simps)
  then show "\<bar>?r\<bar> * sin (angle2 ?c s) =
      - ?r * sin (angle2 s e + (pi / 2 - includedAngle b / 2))"
    unfolding center_coords by simp
qed

lemma arc_point_coords:
  assumes se: "s \<noteq> e" and b: "b \<noteq> 0"
  shows "x (spec_arc_point s e b n i) = x (spec_center s e b) -
           spec_radius s e b *
             cos (angle2 s e + (pi / 2 - includedAngle b / 2) + includedAngle b / real n * real i)"
    and "y (spec_arc_point s e b n i) = y (spec_center s e b) -
           spec_radius s e b *
             sin (angle2 s e + (pi / 2 - includedAngle b / 2) + includedAngle b / real n * real i)"
proof -
  let ?c = "spec_center s e b" and ?r = "spec_radius s e b"
  let ?f = "angle2 s e + (pi / 2 - includedAngle b / 2)"
  let ?g = "angle2 ?c s" and ?t = "includedAngle b / real n * real i"
  note sa = startAngle_cos_sin [OF se b]
  have "\<bar>?r\<bar> * cos (?g + ?t) = (\<bar>?r\<bar> * cos ?g) * cos ?t - (\<bar>?r\<bar> * sin ?g) * sin ?t"
    by (simp add: cos_add algebra_simps)
  also have "\<dots> = - ?r * (cos ?f * cos ?t - sin ?f * sin ?t)"
    unfolding sa by (simp add: algebra_simps)
  also have "\<dots> = - ?r * cos (?f + ?t)"
    by (simp only: cos_add)
  finally have cx: "\<bar>?r\<bar> * cos (?g + ?t) = - ?r * cos (?f + ?t)" .
  have "\<bar>?r\<bar> * sin (?g + ?t) = (\<bar>?r\<bar> * sin ?g) * cos ?t + (\<bar>?r\<bar> * cos ?g) * sin ?t"
    by (simp add: sin_add algebra_simps)
  also have "\<dots> = - ?r * (sin ?f * cos ?t + cos ?f * sin ?t)"
    unfolding sa by (simp add: algebra_simps)
  also have "\<dots> = - ?r * sin (?f + ?t)"
    by (simp only: sin_add)
  finally have cy: "\<bar>?r\<bar> * sin (?g + ?t) = - ?r * sin (?f + ?t)" .
  show "x (spec_arc_point s e b n i) = x ?c - ?r * cos (?f + ?t)"
    unfolding spec_arc_point_def polar_def using cx by simp
  show "y (spec_arc_point s e b n i) = y ?c - ?r * sin (?f + ?t)"
    unfolding spec_arc_point_def polar_def using cy by simp
qed

lemma arc_point_not_end:
  assumes se: "s \<noteq> e" and b: "b \<noteq> 0" and i: "0 < i" "i < n"
  shows "spec_arc_point s e b n i \<noteq> e"
proof
  let ?c = "spec_center s e b" and ?r = "spec_radius s e b"
  let ?f = "angle2 s e + (pi / 2 - includedAngle b / 2)"
  let ?A = "includedAngle b"
  let ?q = "real i / real n"
  let ?t = "?A / real n * real i"
  assume eq: "spec_arc_point s e b n i = e"
  from spec_radius_nonzero [OF se b] have r: "?r \<noteq> 0" .
  from eq have xe: "x (spec_arc_point s e b n i) = x e"
    and ye: "y (spec_arc_point s e b n i) = y e" by simp_all
  from xe arc_point_coords(1) [OF se b, of n i] end_on_arc(1) [OF se b]
  have "?r * cos (?f + ?t) = ?r * cos (?f + ?A)" by linarith
  with r have c: "cos (?f + ?t) = cos (?f + ?A)" by simp
  from ye arc_point_coords(2) [OF se b, of n i] end_on_arc(2) [OF se b]
  have "?r * sin (?f + ?t) = ?r * sin (?f + ?A)" by linarith
  with r have sn: "sin (?f + ?t) = sin (?f + ?A)" by simp
  from c sn obtain k :: int where k: "?f + ?t = ?f + ?A + 2 * pi * real_of_int k"
    using sin_cos_eq_iff [of "?f + ?t" "?f + ?A"] by blast
  from i have q: "0 < ?q" "?q < 1" by simp_all
  have t: "?t = ?A * ?q" by simp
  from k have d: "?A * ?q - ?A = 2 * pi * real_of_int k"
    unfolding t by simp
  have "?A * ?q - ?A = - (?A * (1 - ?q))" by (simp add: algebra_simps)
  then have "\<bar>?A * ?q - ?A\<bar> = \<bar>?A\<bar> * (1 - ?q)"
    using q by (simp add: abs_mult)
  moreover from includedAngle_nonzero [OF b] have a0: "0 < \<bar>?A\<bar>" by simp
  moreover from includedAngle_bounds [of b] have a2: "\<bar>?A\<bar> < 2 * pi" by simp
  ultimately have lo: "0 < \<bar>?A * ?q - ?A\<bar>" and hi: "\<bar>?A * ?q - ?A\<bar> < 2 * pi"
  proof -
    assume m: "\<bar>?A * ?q - ?A\<bar> = \<bar>?A\<bar> * (1 - ?q)"
    from a0 q show "0 < \<bar>?A * ?q - ?A\<bar>" unfolding m by simp
    from a0 q have "\<bar>?A\<bar> * (1 - ?q) < \<bar>?A\<bar> * 1"
      by (intro mult_strict_left_mono) simp_all
    with a2 show "\<bar>?A * ?q - ?A\<bar> < 2 * pi" unfolding m by simp
  qed
  from lo d have "k \<noteq> 0" by auto
  then have "1 \<le> \<bar>real_of_int k\<bar>" by simp
  then have "2 * pi * 1 \<le> 2 * pi * \<bar>real_of_int k\<bar>"
    by (intro mult_left_mono) simp_all
  then have "2 * pi \<le> \<bar>2 * pi * real_of_int k\<bar>"
    by (simp add: abs_mult)
  with hi d show False by simp
qed

lemma spec_bulge_nonzero: "spec_bulge bo \<noteq> 0"
  by (auto simp: spec_bulge_def)

section \<open>The claims about the intersection engine\<close>

text \<open>
  Claim C1. For a candidate that computes a point, the engine adds that point if and
  only if the acceptance rule holds (\<open>findCrossPoint_snoc\<close>), and the two examples of
  the claim evaluate as stated (\<open>findCrossPoint_ex1\<close>, \<open>findCrossPoint_ex2\<close>). The claim
  fails on a list with a later candidate of a singular system. For the query
  (0,0)--(4,4), the candidate (0,2)--(1/2,3/2) computes the point (1,1), which lies
  outside the box of that candidate and is rejected; the next candidate (0,1)--(2,3) is
  parallel to the query and computes no point, the error of the solver is caught with no
  \<open>continue\<close>, and the test of lines 152--159 accepts the point (1,1) left in
  \<open>intersectX\<close> and \<open>intersectY\<close>: the result contains a computed point that the rule
  rejects.
\<close>

theorem findCrossPoint_rejected_point_emitted:
  "computed \<lparr>x = 0, y = 0\<rparr> \<lparr>x = 4, y = 4\<rparr>
     \<lparr>start = \<lparr>x = 0, y = 2\<rparr>, endpt = \<lparr>x = 1 / 2, y = 3 / 2\<rparr>\<rparr> = Some \<lparr>x = 1, y = 1\<rparr> \<and>
   \<not> spec_accepts \<lparr>x = 0, y = 0\<rparr> \<lparr>x = 4, y = 4\<rparr>
     \<lparr>start = \<lparr>x = 0, y = 2\<rparr>, endpt = \<lparr>x = 1 / 2, y = 3 / 2\<rparr>\<rparr> \<lparr>x = 1, y = 1\<rparr> \<and>
   computed \<lparr>x = 0, y = 0\<rparr> \<lparr>x = 4, y = 4\<rparr>
     \<lparr>start = \<lparr>x = 0, y = 1\<rparr>, endpt = \<lparr>x = 2, y = 3\<rparr>\<rparr> = None \<and>
   findCrossPoint \<lparr>x = 0, y = 0\<rparr> \<lparr>x = 4, y = 4\<rparr>
     [\<lparr>start = \<lparr>x = 0, y = 2\<rparr>, endpt = \<lparr>x = 1 / 2, y = 3 / 2\<rparr>\<rparr>] = Inr [] \<and>
   findCrossPoint \<lparr>x = 0, y = 0\<rparr> \<lparr>x = 4, y = 4\<rparr>
     [\<lparr>start = \<lparr>x = 0, y = 2\<rparr>, endpt = \<lparr>x = 1 / 2, y = 3 / 2\<rparr>\<rparr>,
      \<lparr>start = \<lparr>x = 0, y = 1\<rparr>, endpt = \<lparr>x = 2, y = 3\<rparr>\<rparr>] = Inr [\<lparr>x = 1, y = 1\<rparr>]"
  by (simp add: computed_def spec_accepts_def in_box_def bounding_box_def findCrossPoint_def
      getCoefficienConst_def solveSimultaneousEquation_def loop_body_def disjoint_boxes_def
      push_if_accepted_def accepts_def)

text \<open>
  Claim C2. The rows of the case table are \<open>case_table_rows\<close>, \<open>case_table_sloped\<close>
  and \<open>case_table_parallel\<close> above. The claim also has every case without a point
  skipped. The singular Sloped--Sloped case is not: the error of the solver is caught and
  logged, no \<open>continue\<close> follows, and the test of lines 152--159 runs on the values
  that \<open>intersectX\<close> and \<open>intersectY\<close> kept from an earlier candidate. For the query
  (0,0)--(2,2), the candidate (0,1)--(1,2) is parallel to the query and alone yields no
  point; after the candidate (0,2)--(2,0) it yields the point (1,1) a second time.
\<close>

theorem findCrossPoint_parallel_stale:
  "case_table (Some 1, Some 0) (Some 1, Some 1) = Caught SingularMatrix \<and>
   findCrossPoint \<lparr>x = 0, y = 0\<rparr> \<lparr>x = 2, y = 2\<rparr>
     [\<lparr>start = \<lparr>x = 0, y = 1\<rparr>, endpt = \<lparr>x = 1, y = 2\<rparr>\<rparr>] = Inr [] \<and>
   findCrossPoint \<lparr>x = 0, y = 0\<rparr> \<lparr>x = 2, y = 2\<rparr>
     [\<lparr>start = \<lparr>x = 0, y = 2\<rparr>, endpt = \<lparr>x = 2, y = 0\<rparr>\<rparr>,
      \<lparr>start = \<lparr>x = 0, y = 1\<rparr>, endpt = \<lparr>x = 1, y = 2\<rparr>\<rparr>] =
     Inr [\<lparr>x = 1, y = 1\<rparr>, \<lparr>x = 1, y = 1\<rparr>]"
  by (simp add: findCrossPoint_def getCoefficienConst_def solveSimultaneousEquation_def
      loop_body_def disjoint_boxes_def push_if_accepted_def accepts_def)

text \<open>
  Claim C3. For every pair of points, \<open>classify\<close> returns Degenerate when the points
  are equal, Vertical(x) when the x coordinates are equal, Horizontal(y) when the y
  coordinates are equal, and otherwise Sloped(a, k) where a and k solve the linear system
  [[x1,1],[x2,1]] [a,k] = [y1,y2]; it raises no error. In particular
  classify((0,0),(0,5)) = Vertical(0), classify((0,3),(5,3)) = Horizontal(3) and
  classify((0,0),(2,2)) = Sloped(1,0).
\<close>

theorem classify_cases:
  "(p1 = p2 \<longrightarrow> classify p1 p2 = Inr Degenerate) \<and>
   (p1 \<noteq> p2 \<and> x p1 = x p2 \<longrightarrow> classify p1 p2 = Inr (Vertical (x p1))) \<and>
   (x p1 \<noteq> x p2 \<and> y p1 = y p2 \<longrightarrow> classify p1 p2 = Inr (Horizontal (y p1))) \<and>
   (x p1 \<noteq> x p2 \<and> y p1 \<noteq> y p2 \<longrightarrow>
      (\<exists>a k. classify p1 p2 = Inr (Sloped a k) \<and>
         x p1 * a + 1 * k = y p1 \<and> x p2 * a + 1 * k = y p2)) \<and>
   classify \<lparr>x = 0, y = 0\<rparr> \<lparr>x = 0, y = 5\<rparr> = Inr (Vertical 0) \<and>
   classify \<lparr>x = 0, y = 3\<rparr> \<lparr>x = 5, y = 3\<rparr> = Inr (Horizontal 3) \<and>
   classify \<lparr>x = 0, y = 0\<rparr> \<lparr>x = 2, y = 2\<rparr> = Inr (Sloped 1 0)"
proof (intro conjI impI)
  show "classify p1 p2 = Inr Degenerate" if "p1 = p2"
    using that by (simp add: classify_def getCoefficienConst_def)
  show "classify p1 p2 = Inr (Vertical (x p1))" if "p1 \<noteq> p2 \<and> x p1 = x p2"
    using that by (simp add: classify_def getCoefficienConst_def point_eq_iff)
  show "classify p1 p2 = Inr (Horizontal (y p1))" if "x p1 \<noteq> x p2 \<and> y p1 = y p2"
    using that by (simp add: classify_def getCoefficienConst_def)
  show "\<exists>a k. classify p1 p2 = Inr (Sloped a k) \<and>
          x p1 * a + 1 * k = y p1 \<and> x p2 * a + 1 * k = y p2"
    if "x p1 \<noteq> x p2 \<and> y p1 \<noteq> y p2"
    using that classify_sloped by blast
  show "classify \<lparr>x = 0, y = 0\<rparr> \<lparr>x = 0, y = 5\<rparr> = Inr (Vertical 0)"
    by (simp add: classify_def getCoefficienConst_def)
  show "classify \<lparr>x = 0, y = 3\<rparr> \<lparr>x = 5, y = 3\<rparr> = Inr (Horizontal 3)"
    by (simp add: classify_def getCoefficienConst_def)
  show "classify \<lparr>x = 0, y = 0\<rparr> \<lparr>x = 2, y = 2\<rparr> = Inr (Sloped 1 0)"
    by (simp add: classify_def getCoefficienConst_def solveSimultaneousEquation_def)
qed

theorem classify_cases_witness:
  "classify \<lparr>x = 4, y = 7\<rparr> \<lparr>x = 4, y = 7\<rparr> = Inr Degenerate \<and>
   classify \<lparr>x = 4, y = 7\<rparr> \<lparr>x = 4, y = 9\<rparr> = Inr (Vertical 4) \<and>
   classify \<lparr>x = 4, y = 7\<rparr> \<lparr>x = 6, y = 7\<rparr> = Inr (Horizontal 7) \<and>
   (\<exists>a k. classify \<lparr>x = 1, y = 1\<rparr> \<lparr>x = 3, y = 5\<rparr> = Inr (Sloped a k) \<and>
      1 * a + 1 * k = 1 \<and> 3 * a + 1 * k = 5)"
  using classify_cases [of "\<lparr>x = 4, y = 7\<rparr>" "\<lparr>x = 4, y = 7\<rparr>"]
    classify_cases [of "\<lparr>x = 4, y = 7\<rparr>" "\<lparr>x = 4, y = 9\<rparr>"]
    classify_cases [of "\<lparr>x = 4, y = 7\<rparr>" "\<lparr>x = 6, y = 7\<rparr>"]
    classify_cases [of "\<lparr>x = 1, y = 1\<rparr>" "\<lparr>x = 3, y = 5\<rparr>"]
  by simp

text \<open>
  Claim C10. The result of the engine is given by its three arguments alone: it is the
  concatenation, in ascending candidate index, of what each candidate emits, where
  candidate \<open>i\<close> emits at most one point, the point under test at \<open>i\<close> when the
  acceptance rule holds of it for candidate \<open>i\<close>. When no candidate has a singular
  system, the result is the list of the accepted computed points in the order of their
  candidates. Nothing but the arguments enters, so two runs on equal inputs return equal
  lists.
\<close>

theorem findCrossPoint_candidate_order:
  "findCrossPoint point1 point2 ls =
     Inr (concat (map (\<lambda>i. emits point1 point2 (left_by point1 point2 (take i ls)) (ls ! i))
                    [0..<length ls])) \<and>
   (\<forall>i. length (emits point1 point2 (left_by point1 point2 (take i ls)) (ls ! i)) \<le> 1) \<and>
   ((\<forall>l \<in> set ls. \<not> caught point1 point2 l) \<longrightarrow>
      findCrossPoint point1 point2 ls = Inr (concat (map (accepted_point point1 point2) ls)))"
proof (intro conjI allI impI)
  obtain co where co: "getCoefficienConst point1 point2 = Inr co"
    using getCoefficienConst_total by blast
  from loop_emits [OF co, of ls] co
  show r: "findCrossPoint point1 point2 ls =
     Inr (concat (map (\<lambda>i. emits point1 point2 (left_by point1 point2 (take i ls)) (ls ! i))
                    [0..<length ls]))"
    by (auto simp: findCrossPoint_def)
  show "length (emits point1 point2 (left_by point1 point2 (take i ls)) (ls ! i)) \<le> 1" for i
    by (rule emits_length)
  assume nc: "\<forall>l \<in> set ls. \<not> caught point1 point2 l"
  have "map (\<lambda>i. emits point1 point2 (left_by point1 point2 (take i ls)) (ls ! i)) [0..<length ls] =
        map (\<lambda>i. accepted_point point1 point2 (ls ! i)) [0..<length ls]"
    using nc by (intro map_cong refl emits_not_caught) simp
  also have "\<dots> = map (accepted_point point1 point2) (map ((!) ls) [0..<length ls])"
    by (simp only: map_map comp_def)
  also have "\<dots> = map (accepted_point point1 point2) ls"
    by (simp only: map_nth)
  finally show "findCrossPoint point1 point2 ls =
      Inr (concat (map (accepted_point point1 point2) ls))"
    using r by simp
qed

theorem findCrossPoint_candidate_order_witness:
  "\<not> caught \<lparr>x = 0, y = 0\<rparr> \<lparr>x = 4, y = 4\<rparr>
       \<lparr>start = \<lparr>x = 0, y = 6\<rparr>, endpt = \<lparr>x = 6, y = 0\<rparr>\<rparr> \<and>
   \<not> caught \<lparr>x = 0, y = 0\<rparr> \<lparr>x = 4, y = 4\<rparr>
       \<lparr>start = \<lparr>x = 0, y = 2\<rparr>, endpt = \<lparr>x = 2, y = 0\<rparr>\<rparr> \<and>
   accepted_point \<lparr>x = 0, y = 0\<rparr> \<lparr>x = 4, y = 4\<rparr>
       \<lparr>start = \<lparr>x = 0, y = 6\<rparr>, endpt = \<lparr>x = 6, y = 0\<rparr>\<rparr> = [\<lparr>x = 3, y = 3\<rparr>] \<and>
   accepted_point \<lparr>x = 0, y = 0\<rparr> \<lparr>x = 4, y = 4\<rparr>
       \<lparr>start = \<lparr>x = 0, y = 2\<rparr>, endpt = \<lparr>x = 2, y = 0\<rparr>\<rparr> = [\<lparr>x = 1, y = 1\<rparr>] \<and>
   findCrossPoint \<lparr>x = 0, y = 0\<rparr> \<lparr>x = 4, y = 4\<rparr>
     [\<lparr>start = \<lparr>x = 0, y = 6\<rparr>, endpt = \<lparr>x = 6, y = 0\<rparr>\<rparr>,
      \<lparr>start = \<lparr>x = 0, y = 2\<rparr>, endpt = \<lparr>x = 2, y = 0\<rparr>\<rparr>] =
     Inr [\<lparr>x = 3, y = 3\<rparr>, \<lparr>x = 1, y = 1\<rparr>]"
proof -
  let ?p1 = "\<lparr>x = 0, y = 0\<rparr>" and ?p2 = "\<lparr>x = 4, y = 4\<rparr>"
  let ?c0 = "\<lparr>start = \<lparr>x = 0, y = 6\<rparr>, endpt = \<lparr>x = 6, y = 0\<rparr>\<rparr>"
  let ?c1 = "\<lparr>start = \<lparr>x = 0, y = 2\<rparr>, endpt = \<lparr>x = 2, y = 0\<rparr>\<rparr>"
  have n0: "\<not> caught ?p1 ?p2 ?c0" and n1: "\<not> caught ?p1 ?p2 ?c1"
    by (simp_all add: caught_def getCoefficienConst_def solveSimultaneousEquation_def)
  have a0: "accepted_point ?p1 ?p2 ?c0 = [\<lparr>x = 3, y = 3\<rparr>]"
    by (simp add: accepted_point_def computed_def getCoefficienConst_def
        solveSimultaneousEquation_def spec_accepts_def in_box_def bounding_box_def)
  have a1: "accepted_point ?p1 ?p2 ?c1 = [\<lparr>x = 1, y = 1\<rparr>]"
    by (simp add: accepted_point_def computed_def getCoefficienConst_def
        solveSimultaneousEquation_def spec_accepts_def in_box_def bounding_box_def)
  from n0 n1 have "\<forall>l \<in> set [?c0, ?c1]. \<not> caught ?p1 ?p2 l" by simp
  with findCrossPoint_candidate_order [of ?p1 ?p2 "[?c0, ?c1]"]
  have "findCrossPoint ?p1 ?p2 [?c0, ?c1] =
      Inr (concat (map (accepted_point ?p1 ?p2) [?c0, ?c1]))"
    by blast
  with a0 a1 have "findCrossPoint ?p1 ?p2 [?c0, ?c1] = Inr [\<lparr>x = 3, y = 3\<rparr>, \<lparr>x = 1, y = 1\<rparr>]"
    by simp
  with n0 n1 a0 a1 show ?thesis by blast
qed

section \<open>The claims about the tessellator\<close>

text \<open>
  Claim C4, as the code has it. For the semicircle with start (0,0), end (2,0) and bulge
  1 the constructor takes the default segment count, which is 18; the vertex list
  begins with the start and has exactly 18 - 1 interior points after it; the middle
  interior point, of index 9, is (1, -1): a positive bulge runs counter-clockwise from
  start to end, below this chord.
\<close>

theorem BulgeGeometry_semicircle:
  "this_segments (BulgeGeometry \<lparr>x = 0, y = 0\<rparr> \<lparr>x = 2, y = 0\<rparr> (Some 1) None) =
     default_segments 1 \<and>
   default_segments 1 = 18 \<and>
   hd (this_vertices (BulgeGeometry \<lparr>x = 0, y = 0\<rparr> \<lparr>x = 2, y = 0\<rparr> (Some 1) None)) =
     \<lparr>x = 0, y = 0\<rparr> \<and>
   length (tl (this_vertices (BulgeGeometry \<lparr>x = 0, y = 0\<rparr> \<lparr>x = 2, y = 0\<rparr> (Some 1) None))) =
     default_segments 1 - 1 \<and>
   this_vertices (BulgeGeometry \<lparr>x = 0, y = 0\<rparr> \<lparr>x = 2, y = 0\<rparr> (Some 1) None) ! 9 =
     \<lparr>x = 1, y = - 1\<rparr>"
proof (intro conjI)
  let ?g = "BulgeGeometry \<lparr>x = 0, y = 0\<rparr> \<lparr>x = 2, y = 0\<rparr> (Some 1) None"
  show "this_segments ?g = default_segments 1"
    by (simp add: semicircle_segments default_segments_1)
  show "default_segments 1 = 18"
    by (rule default_segments_1)
  show "hd (this_vertices ?g) = \<lparr>x = 0, y = 0\<rparr>"
    by (simp add: semicircle_vertices)
  show "length (tl (this_vertices ?g)) = default_segments 1 - 1"
    by (simp add: semicircle_vertices default_segments_1)
  show "this_vertices ?g ! 9 = \<lparr>x = 1, y = - 1\<rparr>"
    by (rule semicircle_middle)
qed

text \<open>
  Claim C4 as stated fails: the middle interior point is not within a tolerance of
  1/1000 of (1, 1).
\<close>

theorem BulgeGeometry_semicircle_counterexample:
  "\<not> within_tolerance (1 / 1000)
      (this_vertices (BulgeGeometry \<lparr>x = 0, y = 0\<rparr> \<lparr>x = 2, y = 0\<rparr> (Some 1) None) ! 9)
      \<lparr>x = 1, y = 1\<rparr>"
  by (simp add: semicircle_middle within_tolerance_def)

text \<open>
  Claim C5, as the code has it. The constructor takes the bulge 1 for an omitted bulge
  and for the bulge 0. With the segment count omitted (or 0) it takes
  max(|ceil(angle / 10 degrees)|, 6) segments, where angle = 4 atan(bulge): the absolute
  value is taken of the ceiling. For a bulge that is not negative this is
  max(ceil(|angle| / 10 degrees), 6); for a negative bulge it is
  max(floor(|angle| / 10 degrees), 6).
\<close>

theorem BulgeGeometry_defaults:
  "this_bulge (BulgeGeometry s e bo no) =
     (case bo of None \<Rightarrow> 1 | Some b \<Rightarrow> if b = 0 then 1 else b) \<and>
   (no = None \<or> no = Some 0 \<longrightarrow>
      this_segments (BulgeGeometry s e bo no) =
        max (nat \<bar>\<lceil>4 * arctan (this_bulge (BulgeGeometry s e bo no)) / (pi / 18)\<rceil>\<bar>) 6) \<and>
   (no = None \<or> no = Some 0 \<longrightarrow> 0 \<le> this_bulge (BulgeGeometry s e bo no) \<longrightarrow>
      this_segments (BulgeGeometry s e bo no) =
        max (nat \<lceil>\<bar>4 * arctan (this_bulge (BulgeGeometry s e bo no))\<bar> / (pi / 18)\<rceil>) 6) \<and>
   (no = None \<or> no = Some 0 \<longrightarrow> this_bulge (BulgeGeometry s e bo no) < 0 \<longrightarrow>
      this_segments (BulgeGeometry s e bo no) =
        max (nat \<lfloor>\<bar>4 * arctan (this_bulge (BulgeGeometry s e bo no))\<bar> / (pi / 18)\<rfloor>) 6)"
proof (intro conjI impI)
  let ?g = "BulgeGeometry s e bo no"
  show "this_bulge ?g = (case bo of None \<Rightarrow> 1 | Some b \<Rightarrow> if b = 0 then 1 else b)"
    by (simp add: BulgeGeometry_fields spec_bulge_def split: option.splits)
  assume o: "no = None \<or> no = Some 0"
  then have seg: "this_segments ?g = default_segments (this_bulge ?g)"
    by (auto simp: BulgeGeometry_fields)
  show "this_segments ?g = max (nat \<bar>\<lceil>4 * arctan (this_bulge ?g) / (pi / 18)\<rceil>\<bar>) 6"
    unfolding seg by (simp add: default_segments_def includedAngle_def)
  show "this_segments ?g = max (nat \<lceil>\<bar>4 * arctan (this_bulge ?g)\<bar> / (pi / 18)\<rceil>) 6"
    if "0 \<le> this_bulge ?g"
    unfolding seg default_segments_nonneg [OF that]
    by (simp add: spec_segmentCount_def includedAngle_def)
  show "this_segments ?g = max (nat \<lfloor>\<bar>4 * arctan (this_bulge ?g)\<bar> / (pi / 18)\<rfloor>) 6"
    if "this_bulge ?g < 0"
    unfolding seg default_segments_neg [OF that]
    by (simp add: includedAngle_def)
qed

theorem BulgeGeometry_defaults_witness:
  "this_bulge (BulgeGeometry \<lparr>x = 0, y = 0\<rparr> \<lparr>x = 2, y = 0\<rparr> (Some 0) (Some 0)) = 1 \<and>
   this_segments (BulgeGeometry \<lparr>x = 0, y = 0\<rparr> \<lparr>x = 2, y = 0\<rparr> (Some 0) (Some 0)) = 18 \<and>
   this_bulge (BulgeGeometry \<lparr>x = 0, y = 0\<rparr> \<lparr>x = 2, y = 0\<rparr> (Some (- 1)) None) = - 1 \<and>
   this_segments (BulgeGeometry \<lparr>x = 0, y = 0\<rparr> \<lparr>x = 2, y = 0\<rparr> (Some (- 1)) None) = 18"
proof -
  let ?g = "BulgeGeometry \<lparr>x = 0, y = 0\<rparr> \<lparr>x = 2, y = 0\<rparr> (Some 0) (Some 0)"
  let ?h = "BulgeGeometry \<lparr>x = 0, y = 0\<rparr> \<lparr>x = 2, y = 0\<rparr> (Some (- 1)) None"
  note g = BulgeGeometry_defaults [of "\<lparr>x = 0, y = 0\<rparr>" "\<lparr>x = 2, y = 0\<rparr>" "Some 0" "Some 0"]
  note h = BulgeGeometry_defaults [of "\<lparr>x = 0, y = 0\<rparr>" "\<lparr>x = 2, y = 0\<rparr>" "Some (- 1)" None]
  from g have bg: "this_bulge ?g = 1" by simp
  from g have "this_segments ?g = max (nat \<lceil>\<bar>4 * arctan (this_bulge ?g)\<bar> / (pi / 18)\<rceil>) 6"
    unfolding bg by simp
  then have sg: "this_segments ?g = 18"
    unfolding bg by (simp add: arctan_one)
  from h have bh: "this_bulge ?h = - 1" by simp
  from h have "this_segments ?h = max (nat \<lfloor>\<bar>4 * arctan (this_bulge ?h)\<bar> / (pi / 18)\<rfloor>) 6"
    unfolding bh by simp
  then have sh: "this_segments ?h = 18"
    unfolding bh by (simp add: arctan_minus arctan_one)
  from bg sg bh sh show ?thesis by simp
qed

text \<open>
  Claim C5 as stated fails for a negative bulge: for the bulge -1/2 the included angle is
  about -106.26 degrees, the constructor takes 10 segments, and the formula of the claim
  gives 11.
\<close>

theorem BulgeGeometry_defaults_counterexample:
  "this_segments (BulgeGeometry \<lparr>x = 0, y = 0\<rparr> \<lparr>x = 2, y = 0\<rparr> (Some (- 1 / 2)) None) = 10 \<and>
   max (nat \<lceil>\<bar>includedAngle (- 1 / 2)\<bar> / (pi / 18)\<rceil>) 6 = 11"
  using default_segments_minus_half spec_segmentCount_minus_half
  by (simp add: BulgeGeometry_fields spec_bulge_def spec_segmentCount_def)

text \<open>
  Claim C6, as the code has it. For every start point, end point, bulge and segment
  count \<open>n\<close> (a given count of at least 1 is the count taken), the vertex list begins with
  the start point and is followed by exactly \<open>n - 1\<close> interior arc points, the points
  polar(center, |radius|, startAngle + thetaStep i) for i = 1 .. n-1 in that order; and
  when the end point differs from the start point, the list does not contain the end
  point.
\<close>

theorem BulgeGeometry_vertices_order:
  "(0 < n \<longrightarrow> this_segments (BulgeGeometry s e bo (Some n)) = n) \<and>
   hd (this_vertices (BulgeGeometry s e bo no)) = s \<and>
   tl (this_vertices (BulgeGeometry s e bo no)) =
     map (spec_arc_point s e (this_bulge (BulgeGeometry s e bo no))
            (this_segments (BulgeGeometry s e bo no)))
       [1..<this_segments (BulgeGeometry s e bo no)] \<and>
   length (tl (this_vertices (BulgeGeometry s e bo no))) =
     this_segments (BulgeGeometry s e bo no) - 1 \<and>
   (s \<noteq> e \<longrightarrow> e \<notin> set (this_vertices (BulgeGeometry s e bo no)))"
proof (intro conjI impI)
  let ?g = "BulgeGeometry s e bo no"
  show "this_segments (BulgeGeometry s e bo (Some n)) = n" if "0 < n"
    using that by (simp add: BulgeGeometry_fields)
  show "hd (this_vertices ?g) = s"
    by (simp add: BulgeGeometry_vertices)
  show "tl (this_vertices ?g) =
      map (spec_arc_point s e (this_bulge ?g) (this_segments ?g)) [1..<this_segments ?g]"
    by (simp add: BulgeGeometry_vertices BulgeGeometry_fields(3))
  show "length (tl (this_vertices ?g)) = this_segments ?g - 1"
    by (simp add: BulgeGeometry_vertices)
  show "e \<notin> set (this_vertices ?g)" if se: "s \<noteq> e"
  proof
    assume "e \<in> set (this_vertices ?g)"
    with se have "e \<in> set (map (spec_arc_point s e (spec_bulge bo) (this_segments ?g))
        [1..<this_segments ?g])"
      unfolding BulgeGeometry_vertices by auto
    then obtain i where m: "i \<in> set [1..<this_segments ?g]"
      and p: "spec_arc_point s e (spec_bulge bo) (this_segments ?g) i = e"
      by auto
    from m have "0 < i" "i < this_segments ?g" by simp_all
    from arc_point_not_end [OF se spec_bulge_nonzero this] p show False by blast
  qed
qed

theorem BulgeGeometry_vertices_order_witness:
  "(0::nat) < 2 \<and> \<lparr>x = 0, y = 0\<rparr> \<noteq> \<lparr>x = 2, y = 0\<rparr> \<and>
   this_segments (BulgeGeometry \<lparr>x = 0, y = 0\<rparr> \<lparr>x = 2, y = 0\<rparr> (Some 1) (Some 2)) = 2 \<and>
   \<lparr>x = 2, y = 0\<rparr> \<notin>
     set (this_vertices (BulgeGeometry \<lparr>x = 0, y = 0\<rparr> \<lparr>x = 2, y = 0\<rparr> (Some 1) (Some 2)))"
  using BulgeGeometry_vertices_order [of 2 "\<lparr>x = 0, y = 0\<rparr>" "\<lparr>x = 2, y = 0\<rparr>" "Some 1" "Some 2"]
  by simp

text \<open>
  Claim C6 as stated fails when the end point is the start point: the first vertex of the
  list is then the end point.
\<close>

theorem BulgeGeometry_vertices_order_counterexample:
  "\<lparr>x = 0, y = 0\<rparr> \<in>
     set (this_vertices (BulgeGeometry \<lparr>x = 0, y = 0\<rparr> \<lparr>x = 0, y = 0\<rparr> (Some 1) (Some 6)))"
  by (simp add: BulgeGeometry_vertices)

section \<open>The claims about the intersection phase and the scheduler\<close>

text \<open>
  Claim C7. In the intersection phase the generator yields one work item for each index
  of the segment list; for every index \<open>i\<close> the work item calls the intersection engine
  with the segment \<open>i\<close> as query and with exactly the strict prefix of the first \<open>i\<close>
  segments as candidates (the empty list for \<open>i = 0\<close>). So the candidates of item \<open>i\<close>
  are the segments of index below \<open>i\<close>: a pair of segments is examined by the item of
  the later one only.
\<close>

theorem createGenerator_prefix:
  "length (createGenerator lines) = length lines \<and>
   (i < length lines \<longrightarrow>
      createGenerator lines ! i = (lines ! i, take i lines) \<and>
      call_item (createGenerator lines ! i) =
        findCrossPoint (start (lines ! i)) (endpt (lines ! i)) (take i lines) \<and>
      length (snd (createGenerator lines ! i)) = i \<and>
      (\<forall>j < i. snd (createGenerator lines ! i) ! j = lines ! j)) \<and>
   (0 < length lines \<longrightarrow> snd (createGenerator lines ! 0) = [])"
  by (simp add: createGenerator_def call_item_def createIntersectPoint_def)

theorem createGenerator_prefix_witness:
  "(1::nat) < length [\<lparr>start = \<lparr>x = 0, y = 0\<rparr>, endpt = \<lparr>x = 2, y = 2\<rparr>\<rparr>,
                      \<lparr>start = \<lparr>x = 0, y = 2\<rparr>, endpt = \<lparr>x = 2, y = 0\<rparr>\<rparr>] \<and>
   createGenerator [\<lparr>start = \<lparr>x = 0, y = 0\<rparr>, endpt = \<lparr>x = 2, y = 2\<rparr>\<rparr>,
                    \<lparr>start = \<lparr>x = 0, y = 2\<rparr>, endpt = \<lparr>x = 2, y = 0\<rparr>\<rparr>] ! 1 =
     (\<lparr>start = \<lparr>x = 0, y = 2\<rparr>, endpt = \<lparr>x = 2, y = 0\<rparr>\<rparr>,
      [\<lparr>start = \<lparr>x = 0, y = 0\<rparr>, endpt = \<lparr>x = 2, y = 2\<rparr>\<rparr>]) \<and>
   snd (createGenerator [\<lparr>start = \<lparr>x = 0, y = 0\<rparr>, endpt = \<lparr>x = 2, y = 2\<rparr>\<rparr>,
                    \<lparr>start = \<lparr>x = 0, y = 2\<rparr>, endpt = \<lparr>x = 2, y = 0\<rparr>\<rparr>] ! 0) = []"
  using createGenerator_prefix
    [of "[\<lparr>start = \<lparr>x = 0, y = 0\<rparr>, endpt = \<lparr>x = 2, y = 2\<rparr>\<rparr>,
          \<lparr>start = \<lparr>x = 0, y = 2\<rparr>, endpt = \<lparr>x = 2, y = 0\<rparr>\<rparr>]" 1]
  by simp

text \<open>
  Claim C8. Take any sequence of N work items that all succeed and any concurrency bound
  of at least 1 (also one of N or more). Whatever the order in which the workers take
  their steps: a run has at most 2 N + C steps; when no worker has a step left the batch
  is fulfilled; and whenever the batch is fulfilled there is one group for each worker,
  the groups flattened have exactly N entries, namely the values of the N items, and the
  items called are exactly the items of the sequence, each once. A run to the end exists.
\<close>

theorem asynccParallel_each_item_once:
  assumes "1 \<le> concurrency"
    and "\<forall>t \<in> set items. (call :: 't \<Rightarrow> 'e + 'r) t = Inr (f t)"
  shows "(\<forall>sched s groups.
            run_schedule call sched (start_batch items concurrency) = Some s \<longrightarrow>
              length sched \<le> 2 * length items + concurrency \<and>
              (quiescent call s \<longrightarrow> (\<exists>gs. asynccParallel s = Fulfilled gs)) \<and>
              (asynccParallel s = Fulfilled groups \<longrightarrow>
                 length groups = concurrency \<and>
                 length (concat groups) = length items \<and>
                 mset (concat groups) = mset (map f items) \<and>
                 called s = items)) \<and>
         (\<exists>sched s. run_schedule call sched (start_batch items concurrency) = Some s \<and>
            quiescent call s)"
proof (intro conjI allI impI)
  fix sched s and groups :: "'r list list"
  assume r: "run_schedule call sched (start_batch items concurrency) = Some s"
  from run_schedule_bounded [OF r] show "length sched \<le> 2 * length items + concurrency"
    by (simp add: steps_left_start)
  have inv: "batch_inv items f s"
    using assms(2) batch_inv_start r by (rule batch_inv_run)
  from run_schedule_length [OF r] have len: "length (workers s) = concurrency"
    by (simp add: start_batch_def)
  show "\<exists>gs. asynccParallel s = Fulfilled gs" if "quiescent call s"
    using quiescent_fulfilled [OF inv that] by blast
  assume p: "asynccParallel s = Fulfilled groups"
  from len assms(1) have "0 < length (workers s)" by simp
  from fulfilled_batch [OF inv this p]
  show "length (concat groups) = length items"
    "mset (concat groups) = mset (map f items)" "called s = items" by simp_all
  from p len show "length groups = concurrency"
    using promise_all_Fulfilled [of "workers s" groups] by (simp add: asynccParallel_def)
next
  show "\<exists>sched s. run_schedule call sched (start_batch items concurrency) = Some s \<and>
            quiescent call s"
    by (rule reaches_quiescent)
qed

theorem asynccParallel_each_item_once_witness:
  "(1::nat) \<le> 2 \<and>
   run_schedule (\<lambda>t. Inr (10 * t) :: string + nat) [0, 1, 0, 1, 0, 1, 0, 0]
       (start_batch [1, 2, 3 :: nat] 2) =
     Some \<lparr>iterator = [], workers = [Resolved [10, 30], Resolved [20]], called = [1, 2, 3]\<rparr> \<and>
   asynccParallel
     (\<lparr>iterator = [], workers = [Resolved [10, 30], Resolved [20]], called = [1, 2, 3 :: nat]\<rparr>
        :: (nat, string, nat) batch) = Fulfilled [[10, 30], [20]] \<and>
   length (concat [[10, 30], [20 :: nat]]) = length [1, 2, 3 :: nat] \<and>
   mset (concat [[10, 30], [20 :: nat]]) = mset (map (\<lambda>t. 10 * t) [1, 2, 3 :: nat])"
proof -
  let ?call = "\<lambda>t. Inr (10 * t) :: string + nat"
  let ?s = "\<lparr>iterator = [], workers = [Resolved [10, 30], Resolved [20]],
             called = [1, 2, 3 :: nat]\<rparr> :: (nat, string, nat) batch"
  have c: "(1::nat) \<le> 2" by simp
  have ok: "\<forall>t \<in> set [1, 2, 3 :: nat]. ?call t = Inr (10 * t)" by simp
  have r: "run_schedule ?call [0, 1, 0, 1, 0, 1, 0, 0] (start_batch [1, 2, 3 :: nat] 2) = Some ?s"
    by (simp add: start_batch_def worker_step_def numeral_2_eq_2)
  have p: "asynccParallel ?s = Fulfilled [[10, 30], [20]]"
    by (simp add: asynccParallel_def)
  from asynccParallel_each_item_once [OF c ok] r p
  have "length (concat [[10, 30], [20 :: nat]]) = length [1, 2, 3 :: nat] \<and>
        mset (concat [[10, 30], [20 :: nat]]) = mset (map (\<lambda>t. 10 * t) [1, 2, 3 :: nat])"
    by blast
  with c r p show ?thesis by blast
qed

text \<open>
  Claim C9. The claim has an error that escapes a work item reach the caller and abort
  the batch. The scheduler loses it: the promise of the batch is never rejected, and
  from the call of a failing work item on it stays pending
  (\<open>asynccParallel_never_rejected\<close>). Two work items, the first failing with
  \<open>fault\<close>, and two workers: worker 0 calls item 1, worker 1 calls item 2, worker 0
  throws, worker 1 pushes the value 20, finds the iterator done and resolves. Neither
  worker has a step left, the work in flight was carried through, and the promise that
  the caller awaits is still pending.
\<close>

theorem asynccParallel_error_pending:
  "run_schedule (\<lambda>t. if t = 1 then Inl ''fault'' else Inr (10 * t)) [0, 1, 0, 1, 1]
       (start_batch [1, 2 :: nat] 2) =
     Some \<lparr>iterator = [], workers = [Thrown ''fault'', Resolved [20 :: nat]], called = [1, 2]\<rparr> \<and>
   worker_step (\<lambda>t. if t = 1 then Inl ''fault'' else Inr (10 * t)) 0
     \<lparr>iterator = [], workers = [Thrown ''fault'', Resolved [20 :: nat]], called = [1, 2 :: nat]\<rparr>
     = None \<and>
   worker_step (\<lambda>t. if t = 1 then Inl ''fault'' else Inr (10 * t)) 1
     \<lparr>iterator = [], workers = [Thrown ''fault'', Resolved [20 :: nat]], called = [1, 2 :: nat]\<rparr>
     = None \<and>
   asynccParallel
     \<lparr>iterator = [], workers = [Thrown ''fault'', Resolved [20 :: nat]], called = [1, 2 :: nat]\<rparr>
     = Pending"
  by (simp add: start_batch_def worker_step_def numeral_2_eq_2 asynccParallel_def)

end
